theory Spec2Isabelle
  imports Main "HOL-Library.Word"
begin

unbundle bit_operations_syntax

section \<open>The Thirteen Gopher server: request pipeline\<close>

text \<open>
  A shallow embedding of \<^verbatim>\<open>cmd/thirteen/sys_unix.go\<close>. Go strings and byte slices
  are \<^typ>\<open>string\<close> (lists of bytes); indices and lengths are \<^typ>\<open>nat\<close>.
\<close>

subsection \<open>normalizePath\<close>

text \<open>
  The two inner scanning loops of \<^verbatim>\<open>normalizePath\<close>:
  \<^verbatim>\<open>for start < len(path) && path[start] == '/' { start++ }\<close> and
  \<^verbatim>\<open>for end < len(path) && path[end] != '/' { end++ }\<close>.
\<close>

function skipSlashes :: "string \<Rightarrow> nat \<Rightarrow> nat" where
  "skipSlashes path start =
     (if start < length path \<and> path ! start = CHR ''/''
      then skipSlashes path (start + 1) else start)"
  by pat_completeness auto
termination
  by (relation "measure (\<lambda>(path, start). length path - start)") auto

function findEnd :: "string \<Rightarrow> nat \<Rightarrow> nat" where
  "findEnd path e =
     (if e < length path \<and> path ! e \<noteq> CHR ''/''
      then findEnd path (e + 1) else e)"
  by pat_completeness auto
termination
  by (relation "measure (\<lambda>(path, e). length path - e)") auto

declare skipSlashes.simps [simp del] findEnd.simps [simp del]

lemma skipSlashes_ge: "start \<le> skipSlashes path start"
proof (induction path start rule: skipSlashes.induct)
  case (1 path start)
  then show ?case
    by (subst skipSlashes.simps) (auto split: if_splits)
qed

lemma findEnd_ge: "e \<le> findEnd path e"
proof (induction path e rule: findEnd.induct)
  case (1 path e)
  then show ?case
    by (subst findEnd.simps) (auto split: if_splits)
qed

lemma skipSlashes_le: "start \<le> length path \<Longrightarrow> skipSlashes path start \<le> length path"
proof (induction path start rule: skipSlashes.induct)
  case (1 path start)
  then show ?case
    by (subst skipSlashes.simps) (auto split: if_splits)
qed

lemma findEnd_le: "e \<le> length path \<Longrightarrow> findEnd path e \<le> length path"
proof (induction path e rule: findEnd.induct)
  case (1 path e)
  then show ?case
    by (subst findEnd.simps) (auto split: if_splits)
qed

text \<open>
  The outer loop \<^verbatim>\<open>for start, end := 0, 0; end < len(path); start = end + 1\<close>.
  \<^verbatim>\<open>newPath\<close> is the stack of components; the early \<^verbatim>\<open>return\<close> with
  \<^verbatim>\<open>ok == false\<close> is \<^const>\<open>None\<close>. The slice \<^verbatim>\<open>path[start:end]\<close> is
  \<open>take (end - start) (drop start path)\<close>.
\<close>

function normalizeLoop :: "string \<Rightarrow> nat \<Rightarrow> nat \<Rightarrow> string list \<Rightarrow> string list option" where
  "normalizeLoop path start e newPath =
     (if e < length path then
        (let start' = skipSlashes path start;
             e' = findEnd path start';
             component = take (e' - start') (drop start' path)
         in if component = ''..'' then
              (if length newPath = 0 then None
               else normalizeLoop path (e' + 1) e' (take (length newPath - 1) newPath))
            else if component \<noteq> ''.'' then
              normalizeLoop path (e' + 1) e' (newPath @ [component])
            else normalizeLoop path (e' + 1) e' newPath)
      else Some newPath)"
  by pat_completeness auto
termination
proof (relation "measure (\<lambda>(path, start, e, newPath).
          if e < length path then 1 + (length path + 1 - start) else 0)", goal_cases)
  case 1
  then show ?case by simp
next
  case (2 path start e newPath start' e' component)
  have "start \<le> e'"
    using skipSlashes_ge [of start path] findEnd_ge [of start' path] 2 by simp
  then show ?case using 2 by auto
next
  case (3 path start e newPath start' e' component)
  have "start \<le> e'"
    using skipSlashes_ge [of start path] findEnd_ge [of start' path] 3 by simp
  then show ?case using 3 by auto
next
  case (4 path start e newPath start' e' component)
  have "start \<le> e'"
    using skipSlashes_ge [of start path] findEnd_ge [of start' path] 4 by simp
  then show ?case using 4 by auto
qed

declare normalizeLoop.simps [simp del]

text \<open>The final loop \<^verbatim>\<open>for i := range newPath { out += "/" + newPath[i] }\<close>.\<close>

fun flatten :: "string list \<Rightarrow> string \<Rightarrow> string" where
  "flatten [] out = out"
| "flatten (c # cs) out = flatten cs (out @ ''/'' @ c)"

definition normalizePath :: "string \<Rightarrow> string option" where
  "normalizePath path =
     (case normalizeLoop path 0 0 [] of
        None \<Rightarrow> None
      | Some newPath \<Rightarrow> Some (flatten newPath []))"

subsection \<open>Byte-slice helpers of the Go library\<close>

text \<open>
  \<^verbatim>\<open>bytes.Cut(s, sep)\<close> for a one-byte separator: the text before and after the first
  \<^verbatim>\<open>sep\<close> and whether it was found; without it, \<^verbatim>\<open>(s, nil, false)\<close>.
\<close>

fun cut :: "string \<Rightarrow> char \<Rightarrow> string \<times> string \<times> bool" where
  "cut [] sep = ([], [], False)"
| "cut (c # cs) sep =
     (if c = sep then ([], cs, True)
      else (case cut cs sep of (before, after, found) \<Rightarrow> (c # before, after, found)))"

text \<open>\<^verbatim>\<open>bytes.IndexByte(b, c)\<close>: the index of the first \<^verbatim>\<open>c\<close> in \<^verbatim>\<open>b\<close>, or \<open>-1\<close>.\<close>

fun indexByte :: "string \<Rightarrow> char \<Rightarrow> int" where
  "indexByte [] c = -1"
| "indexByte (b # bs) c =
     (if b = c then 0
      else (let i = indexByte bs c in if i = -1 then -1 else i + 1))"

subsection \<open>splitRequest\<close>

definition splitRequest :: "string \<Rightarrow> string \<times> string \<times> string \<times> string" where
  "splitRequest request =
     (case cut request (CHR 0x09) of (selectorBytes, searchBytes, _) \<Rightarrow>
      case cut searchBytes (CHR 0x09) of (searchBytes', _, _) \<Rightarrow>
      case cut selectorBytes CHR ''?'' of (pathBytes, queryBytes, _) \<Rightarrow>
        (selectorBytes, pathBytes, queryBytes, searchBytes'))"

subsection \<open>readRequest\<close>

definition initialRequestSize :: nat where "initialRequestSize = 256"
definition maxRequestSize :: nat where "maxRequestSize = 16384"
definition readChunkSize :: nat where "readChunkSize = 4096"

text \<open>
  One call \<^verbatim>\<open>reader.Read(buf)\<close> on the connection either fails (end of stream,
  deadline, reset) or yields the bytes \<^verbatim>\<open>buf[:n]\<close>, at most \<^verbatim>\<open>readChunkSize\<close>
  of them. A connection is the list of the results of its successive reads; reading past
  the end of the list is the end of the stream, an error.
\<close>

datatype readResult = ReadErr | ReadData string

datatype requestError = ReadFailed | BadRequest | RequestTooBig

definition wellFormedReads :: "readResult list \<Rightarrow> bool" where
  "wellFormedReads reads \<longleftrightarrow>
     list_all (\<lambda>r. case r of ReadErr \<Rightarrow> True | ReadData chunk \<Rightarrow> length chunk \<le> readChunkSize) reads"

fun readLoop :: "readResult list \<Rightarrow> string \<Rightarrow> requestError + string" where
  "readLoop reads requestBuf =
     (if length requestBuf < maxRequestSize then
        (case reads of
           [] \<Rightarrow> Inl ReadFailed
         | ReadErr # _ \<Rightarrow> Inl ReadFailed
         | ReadData chunk # rest \<Rightarrow>
             if CHR 0x00 \<in> set chunk then Inl BadRequest
             else (case cut chunk (CHR 0x0A) of (before, _, foundLF) \<Rightarrow>
               let requestBuf' = requestBuf @ before in
               if foundLF then
                 (let crIndex = indexByte requestBuf' (CHR 0x0D) in
                  if crIndex \<noteq> -1 then
                    (let lastByte = int (length requestBuf') - 1 in
                     if crIndex \<noteq> lastByte then Inl BadRequest
                     else Inr (take (nat lastByte) requestBuf'))
                  else Inr requestBuf')
               else readLoop rest requestBuf'))
      else Inl RequestTooBig)"

declare readLoop.simps [simp del]

definition readRequest :: "readResult list \<Rightarrow> requestError + string" where
  "readRequest reads = readLoop reads []"

subsection \<open>Errors, file modes and the file system\<close>

type_synonym statusCode = int

definition okStatus :: statusCode where "okStatus = 200"
definition badRequestStatus :: statusCode where "badRequestStatus = 400"
definition forbiddenStatus :: statusCode where "forbiddenStatus = 403"
definition fileNotFoundStatus :: statusCode where "fileNotFoundStatus = 404"
definition internalServerErrorStatus :: statusCode where "internalServerErrorStatus = 500"

record responseError =
  status :: statusCode
  message :: string

definition badRequestError :: responseError where
  "badRequestError = \<lparr>status = badRequestStatus, message = ''Bad request.''\<rparr>"
definition fileNotFoundError :: responseError where
  "fileNotFoundError = \<lparr>status = fileNotFoundStatus, message = ''File not found.''\<rparr>"
definition forbiddenError :: responseError where
  "forbiddenError = \<lparr>status = forbiddenStatus, message = ''Forbidden.''\<rparr>"
definition internalServerErrorError :: responseError where
  "internalServerErrorError =
     \<lparr>status = internalServerErrorStatus, message = ''Internal server error.''\<rparr>"

text \<open>
  \<^verbatim>\<open>fs.FileMode\<close> is a \<^verbatim>\<open>uint32\<close>: the permission bits are the low nine, the
  type bits are those of \<^verbatim>\<open>ModeType\<close>. \<^verbatim>\<open>IsRegular\<close> is \<^verbatim>\<open>m&ModeType == 0\<close> and
  \<^verbatim>\<open>IsDir\<close> is \<^verbatim>\<open>m&ModeDir != 0\<close>.
\<close>

type_synonym fileMode = "32 word"

definition ModeDir :: fileMode where "ModeDir = 0x80000000"
definition ModeType :: fileMode where "ModeType = 0x8F280000"

definition IsRegular :: "fileMode \<Rightarrow> bool" where
  "IsRegular m \<longleftrightarrow> m AND ModeType = 0"
definition IsDir :: "fileMode \<Rightarrow> bool" where
  "IsDir m \<longleftrightarrow> m AND ModeDir \<noteq> 0"

text \<open>
  The state of the file system, as \<^verbatim>\<open>os.Stat\<close> shows it: a path does not exist
  (\<^verbatim>\<open>os.IsNotExist(err)\<close>), cannot be examined for another reason, or has a mode.
\<close>

datatype statResult = StatNotExist | StatFailed | StatInfo fileMode

type_synonym fileSystem = "string \<Rightarrow> statResult"

text \<open>\<^verbatim>\<open>strings.HasSuffix\<close>, \<^verbatim>\<open>strings.LastIndex\<close> for a one-byte pattern, and
  \<^verbatim>\<open>filepath.Ext\<close>, whose loop runs down from the last byte to the last separator.\<close>

definition hasSuffix :: "string \<Rightarrow> string \<Rightarrow> bool" where
  "hasSuffix s suf \<longleftrightarrow>
     length s \<ge> length suf \<and> drop (length s - length suf) s = suf"

fun lastIndex :: "string \<Rightarrow> char \<Rightarrow> int" where
  "lastIndex [] c = -1"
| "lastIndex (b # bs) c =
     (let i = lastIndex bs c in
      if i \<noteq> -1 then i + 1 else if b = c then 0 else -1)"

fun extLoop :: "string \<Rightarrow> nat \<Rightarrow> string" where
  "extLoop path 0 = []"
| "extLoop path (Suc i) =
     (if path ! i = CHR ''/'' then []
      else if path ! i = CHR ''.'' then drop i path
      else extLoop path i)"

definition filepath_Ext :: "string \<Rightarrow> string" where
  "filepath_Ext path = extLoop path (length path)"

definition cgiExt :: string where "cgiExt = ''.cgi''"
definition indexCgiPath :: string where "indexCgiPath = ''/index.cgi''"
definition indexPaths :: "string list" where "indexPaths = [indexCgiPath, ''/index.map'']"

subsection \<open>getStats\<close>

definition getStats ::
  "fileSystem \<Rightarrow> string set \<Rightarrow> string \<Rightarrow> bool \<times> bool \<times> bool \<times> responseError option" where
  "getStats fs excluded path =
     (case fs path of
        StatNotExist \<Rightarrow> (False, False, False, Some fileNotFoundError)
      | StatFailed \<Rightarrow> (False, False, False, Some forbiddenError)
      | StatInfo mode \<Rightarrow>
          if IsRegular mode then
            (if filepath_Ext path \<in> excluded then (False, False, False, Some forbiddenError)
             else
               (let isCGI = hasSuffix path cgiExt;
                    needPerm = (if isCGI then 5 else 4)
                in (True, False, isCGI,
                    if mode AND needPerm \<noteq> needPerm then Some forbiddenError else None)))
          else if IsDir mode then
            (False, True, False, if mode AND 5 \<noteq> 5 then Some forbiddenError else None)
          else (False, False, False, if mode AND 4 \<noteq> 4 then Some forbiddenError else None))"

definition canServeFile :: "fileSystem \<Rightarrow> string set \<Rightarrow> string \<Rightarrow> bool" where
  "canServeFile fs excluded path =
     (case getStats fs excluded path of (isFile, _, _, err) \<Rightarrow> isFile \<and> err = None)"

subsection \<open>splitScriptPathAndPathInfo\<close>

text \<open>
  The candidate kept by the walk: \<^verbatim>\<open>fsPath\<close>, \<^verbatim>\<open>split\<close> and \<^verbatim>\<open>err\<close>.
  \<open>probeIndex\<close> is the loop \<^verbatim>\<open>for _, indexPath := range indexPaths\<close> at one
  cursor position \<^verbatim>\<open>n\<close>.
\<close>

type_synonym candidate = "string \<times> nat \<times> responseError option"

fun probeIndex ::
  "fileSystem \<Rightarrow> string set \<Rightarrow> string \<Rightarrow> nat \<Rightarrow> string list \<Rightarrow> candidate \<Rightarrow> candidate" where
  "probeIndex fs excluded curPath n [] cand = cand"
| "probeIndex fs excluded curPath n (indexPath # rest) cand =
     (let pathWithIndex = curPath @ indexPath in
      case getStats fs excluded pathWithIndex of (isFile, _, _, pathErr) \<Rightarrow>
        if pathErr = None \<and> isFile
        then probeIndex fs excluded curPath n rest (pathWithIndex, n, None)
        else probeIndex fs excluded curPath n rest cand)"

text \<open>
  The inner loop \<^verbatim>\<open>for n++; n != len(path) && path[n] != '/'; n++ {}\<close>, after its
  \<^verbatim>\<open>n++\<close>. It is entered with \<^verbatim>\<open>n <= len(path)\<close>, where \<^verbatim>\<open>n != len(path)\<close> is
  \<^verbatim>\<open>n < len(path)\<close>.
\<close>

function nextSlash :: "string \<Rightarrow> nat \<Rightarrow> nat" where
  "nextSlash path n =
     (if n < length path \<and> path ! n \<noteq> CHR ''/'' then nextSlash path (n + 1) else n)"
  by pat_completeness auto
termination
  by (relation "measure (\<lambda>(path, n). length path - n)") auto

declare nextSlash.simps [simp del]

lemma nextSlash_ge: "n \<le> nextSlash path n"
proof (induction path n rule: nextSlash.induct)
  case (1 path n)
  then show ?case
    by (subst nextSlash.simps) (auto split: if_splits)
qed

lemma nextSlash_gt: "n < nextSlash path (Suc n)"
  using nextSlash_ge [of "Suc n" path] by simp

lemma nextSlash_le: "n \<le> length path \<Longrightarrow> nextSlash path n \<le> length path"
proof (induction path n rule: nextSlash.induct)
  case (1 path n)
  then show ?case
    by (subst nextSlash.simps) (auto split: if_splits)
qed

text \<open>
  The walk \<^verbatim>\<open>for { ... }\<close> over the prefixes \<^verbatim>\<open>path[:n]\<close>. Slicing beyond the
  end of \<^verbatim>\<open>path\<close> panics in Go: that is \<^const>\<open>None\<close>.
\<close>

function splitLoop ::
  "fileSystem \<Rightarrow> string set \<Rightarrow> string \<Rightarrow> nat \<Rightarrow> candidate \<Rightarrow> candidate option" where
  "splitLoop fs excluded path n cand =
     (if n > length path then None
      else
        (let curPath = take n path in
         case getStats fs excluded curPath of (isFile, isDir, _, pathErr) \<Rightarrow>
           if isFile then
             (case cand of (fsPath, split, err) \<Rightarrow> Some (curPath, n, err))
           else if pathErr \<noteq> None \<or> \<not> isDir then Some cand
           else
             (let cand' = probeIndex fs excluded curPath n indexPaths cand in
              if n = length path then Some cand'
              else
                (let n' = nextSlash path (n + 1) in
                 if n' = length path \<and> path ! (n' - 1) = CHR ''/'' then Some cand'
                 else splitLoop fs excluded path n' cand'))))"
  by pat_completeness auto
termination
  by (relation "measure (\<lambda>(fs, excluded, path, n, cand). length path - n)")
     (auto intro!: diff_less_mono2 simp: nextSlash_gt)

declare splitLoop.simps [simp del]

text \<open>
  The four results \<^verbatim>\<open>(fsPath, scriptName, pathInfo, err)\<close> are returned together,
  the error beside the strings; \<^const>\<open>None\<close> is a panic.
\<close>

type_synonym resolved = "string \<times> string \<times> string \<times> responseError option"

definition splitScriptPathAndPathInfo ::
  "fileSystem \<Rightarrow> string set \<Rightarrow> string \<Rightarrow> nat \<Rightarrow> resolved option" where
  "splitScriptPathAndPathInfo fs excluded path startLength =
     (case getStats fs excluded path of (isFile, _, _, pathErr) \<Rightarrow>
        if pathErr = None \<and> isFile then
          (if startLength > length path then None
           else Some (path, drop startLength path, [], None))
        else if cgiExt \<in> excluded then Some ([], [], [], Some fileNotFoundError)
        else
          (case splitLoop fs excluded path startLength ([], startLength, Some fileNotFoundError) of
             None \<Rightarrow> None
           | Some (fsPath, split, err) \<Rightarrow>
               Some (fsPath, take (split - startLength) (drop startLength path),
                     drop split path, err)))"

subsection \<open>splitPath\<close>

text \<open>
  \<^verbatim>\<open>url.PathUnescape\<close> of the Go library: every \<^verbatim>\<open>%\<close> must be followed by two
  hexadecimal digits and the three bytes become the byte they encode; otherwise an error.
\<close>

definition ishex :: "char \<Rightarrow> bool" where
  "ishex c \<longleftrightarrow>
     (let n = (of_char c :: nat) in
      (48 \<le> n \<and> n \<le> 57) \<or> (97 \<le> n \<and> n \<le> 102) \<or> (65 \<le> n \<and> n \<le> 70))"

definition unhex :: "char \<Rightarrow> nat" where
  "unhex c =
     (let n = (of_char c :: nat) in
      if 48 \<le> n \<and> n \<le> 57 then n - 48
      else if 97 \<le> n \<and> n \<le> 102 then n - 97 + 10
      else if 65 \<le> n \<and> n \<le> 70 then n - 65 + 10
      else 0)"

fun pathUnescape :: "string \<Rightarrow> string option" where
  "pathUnescape [] = Some []"
| "pathUnescape (c # cs) =
     (if c = CHR ''%'' then
        (case cs of
           h1 # h2 # rest \<Rightarrow>
             if ishex h1 \<and> ishex h2 then
               map_option ((#) (char_of (unhex h1 * 16 + unhex h2))) (pathUnescape rest)
             else None
         | _ \<Rightarrow> None)
      else map_option ((#) c) (pathUnescape cs))"

definition splitPath ::
  "fileSystem \<Rightarrow> string set \<Rightarrow> string \<Rightarrow> string \<Rightarrow> resolved option" where
  "splitPath fs excluded rootPath path =
     (case pathUnescape path of
        None \<Rightarrow> Some ([], [], [], Some badRequestError)
      | Some path' \<Rightarrow>
          if CHR 0x00 \<in> set path' then Some ([], [], [], Some badRequestError)
          else
            (case normalizePath path' of
               None \<Rightarrow> Some ([], [], [], Some forbiddenError)
             | Some path'' \<Rightarrow>
                 splitScriptPathAndPathInfo fs excluded (rootPath @ path'') (length rootPath)))"

subsection \<open>Configuration\<close>

text \<open>
  \<^verbatim>\<open>configMap\<close> maps an option name to a pointer to an \<^verbatim>\<open>int\<close> or to a
  \<^verbatim>\<open>string\<close>; \<^verbatim>\<open>configString\<close> prints an integer option with \<^verbatim>\<open>%d\<close>. Looking up
  a name that is not in the map gives the zero option, whose value has neither type.
\<close>

datatype configValue = IntValue int | StringValue string

type_synonym configMap = "string \<rightharpoonup> configValue"

fun showNat :: "nat \<Rightarrow> string" where
  "showNat n =
     (if n < 10 then [char_of (48 + n)]
      else showNat (n div 10) @ [char_of (48 + n mod 10)])"

declare showNat.simps [simp del]

definition showInt :: "int \<Rightarrow> string" where
  "showInt i = (if i < 0 then CHR ''-'' # showNat (nat (- i)) else showNat (nat i))"

definition configInt :: "configMap \<Rightarrow> string \<Rightarrow> int" where
  "configInt cfg name = (case cfg name of Some (IntValue u) \<Rightarrow> u | _ \<Rightarrow> 0)"

definition configString :: "configMap \<Rightarrow> string \<Rightarrow> string" where
  "configString cfg name =
     (case cfg name of
        Some (IntValue u) \<Rightarrow> showInt u
      | Some (StringValue u) \<Rightarrow> u
      | None \<Rightarrow> ''unsupport type'')"

definition defaultConfig :: configMap where
  "defaultConfig =
     [''desc'' \<mapsto> StringValue [],
      ''listen'' \<mapsto> StringValue ''70'',
      ''maxconn'' \<mapsto> IntValue 1000,
      ''root'' \<mapsto> StringValue ''/srv/gopher'',
      ''rtmo'' \<mapsto> IntValue 60,
      ''serverhost'' \<mapsto> StringValue ''localhost'',
      ''serverport'' \<mapsto> IntValue 0,
      ''user'' \<mapsto> StringValue [],
      ''wtmo'' \<mapsto> IntValue 300]"

subsection \<open>Responses and the CGI runner\<close>

text \<open>
  The process-wide variables read by the responders, and what the operating system
  answers: \<^verbatim>\<open>os.Stat\<close>, \<^verbatim>\<open>os.Open\<close>, and whether \<^verbatim>\<open>cmd.StdoutPipe\<close> and
  \<^verbatim>\<open>cmd.Start\<close> succeed. \<open>remoteAddr\<close> is \<^verbatim>\<open>tcpConn.RemoteAddr().String()\<close> when
  the connection is a TCP connection.
\<close>

record server =
  config :: configMap
  docRoot :: string
  excluded :: "string set"
  uptime :: "64 word"
  requestCount :: "64 word"
  bytesTransferred :: "64 word"

datatype openResult = OpenOK | OpenNotExist | OpenFailed

record Cmd =
  Path :: string
  Args :: "string list"
  Dir :: string
  Env :: "string list"

record system =
  stat :: fileSystem
  openFile :: "string \<Rightarrow> openResult"
  stdoutPipeOK :: "Cmd \<Rightarrow> bool"
  startOK :: "Cmd \<Rightarrow> bool"

type_synonym conn = "string option"

datatype reader = StringReader string | FileReader string | PipeReader Cmd

record response =
  body :: reader
  rstatus :: statusCode
  cmd :: "Cmd option"

definition safePath :: string where "safePath = ''/usr/bin:/bin''"
definition serverSoftware :: string where "serverSoftware = ''Thirteen'' @ ''/'' @ ''0.0.0''"

text \<open>
  The verb \<^verbatim>\<open>%c\<close> of \<^verbatim>\<open>fmt.Sprintf\<close> prints a byte as the UTF-8 encoding of the
  code point of that number: one byte below \<open>0x80\<close>, two bytes from there on. The
  verb \<^verbatim>\<open>%s\<close> copies the bytes of a string.
\<close>

definition fmtC :: "char \<Rightarrow> string" where
  "fmtC c =
     (let n = (of_char c :: nat) in
      if n < 128 then [c] else [char_of (192 + n div 64), char_of (128 + n mod 64)])"

definition makeDirEntry :: "char \<Rightarrow> string \<Rightarrow> string \<Rightarrow> string \<Rightarrow> string" where
  "makeDirEntry gtype user host port =
     fmtC gtype @ user @ [CHR 0x09, CHR 0x09] @ host @ [CHR 0x09] @ port
       @ [CHR 0x0D, CHR 0x0A, CHR ''.'', CHR 0x0D, CHR 0x0A]"

definition makeErrorResponse :: "server \<Rightarrow> responseError \<Rightarrow> response" where
  "makeErrorResponse srv e =
     \<lparr>body = StringReader (makeDirEntry CHR ''3'' (message e)
               (configString (config srv) ''serverhost'') (configString (config srv) ''serverport'')),
      rstatus = status e,
      cmd = None\<rparr>"

text \<open>
  \<^verbatim>\<open>exec.Command(name, arg...)\<close> sets \<^verbatim>\<open>Path\<close> to \<^verbatim>\<open>name\<close> (which holds a
  separator here, so no lookup in \<^verbatim>\<open>PATH\<close> happens) and \<^verbatim>\<open>Args\<close> to \<^verbatim>\<open>name\<close>
  followed by the arguments.
\<close>

definition exec_Command :: "string \<Rightarrow> string list \<Rightarrow> Cmd" where
  "exec_Command name arg = \<lparr>Path = name, Args = name # arg, Dir = [], Env = []\<rparr>"

definition buildCGI ::
  "server \<Rightarrow> conn \<Rightarrow> string \<Rightarrow> string \<Rightarrow> string \<Rightarrow> string \<Rightarrow> string \<Rightarrow> string \<Rightarrow> Cmd" where
  "buildCGI srv conn selector fsPath scriptName pathInfo query search =
     (let cmd0 = exec_Command fsPath
            [search, query,
             configString (config srv) ''serverhost'',
             configString (config srv) ''serverport'',
             pathInfo, selector];
          lastSlash = lastIndex fsPath CHR ''/'';
          cmd1 = (if lastSlash \<noteq> -1 then cmd0\<lparr>Dir := take (nat lastSlash) fsPath\<rparr>
                  else cmd0\<lparr>Dir := docRoot srv\<rparr>);
          (remoteAddr, remotePort) =
            (case conn of
               Some addr \<Rightarrow> (case cut addr CHR '':'' of (a, p, _) \<Rightarrow> (a, p))
             | None \<Rightarrow> ([], []));
          pathTranslated = (if pathInfo \<noteq> [] then docRoot srv @ pathInfo else [])
      in cmd1\<lparr>Env :=
           [''PATH='' @ safePath,
            ''GATEWAY_INTERFACE=CGI/1.1'',
            ''SERVER_PROTOCOL=GOPHER'',
            ''SERVER_SOFTWARE='' @ serverSoftware,
            ''REQUEST_METHOD=GET'',
            ''PATH_INFO='' @ pathInfo,
            ''PATH_TRANSLATED='' @ pathTranslated,
            ''SERVER_NAME='' @ configString (config srv) ''serverhost'',
            ''SERVER_HOST='' @ configString (config srv) ''serverhost'',
            ''SERVER_PORT='' @ configString (config srv) ''serverport'',
            ''QUERY_STRING='' @ query,
            ''REMOTE_ADDR='' @ remoteAddr,
            ''REMOTE_HOST='' @ remoteAddr,
            ''REMOTE_PORT='' @ remotePort,
            ''SCRIPT_NAME='' @ scriptName,
            ''SCRIPT_FILENAME='' @ fsPath,
            ''GOPHER_SCRIPT_FILENAME='' @ fsPath,
            ''DOCUMENT_ROOT='' @ docRoot srv,
            ''GOPHER_DOCUMENT_ROOT='' @ docRoot srv,
            ''SERVER_DESCRIPTION='' @ configString (config srv) ''desc'',
            ''SEARCHREQUEST='' @ search,
            ''X_GOPHER_SEARCH='' @ search,
            ''QUERY_STRING_SEARCH='' @ search,
            ''QUERY_STRING_URL='' @ query,
            ''SELECTOR='' @ selector,
            ''GOPHER_DOCUMENT_SELECTOR='' @ selector,
            ''REQUEST='' @ scriptName @ pathInfo,
            ''THIRTEEN_UPTIME='' @ showNat (unat (uptime srv)),
            ''THIRTEEN_REQUESTS='' @ showNat (unat (requestCount srv)),
            ''THIRTEEN_BYTES='' @ showNat (unat (bytesTransferred srv))]\<rparr>)"

text \<open>
  \<^verbatim>\<open>runCGI\<close>: the command is \<open>buildCGI\<close>; then the pipe is made and the child started,
  and either step may fail.
\<close>

definition runCGI ::
  "server \<Rightarrow> system \<Rightarrow> conn \<Rightarrow> string \<Rightarrow> string \<Rightarrow> string \<Rightarrow> string \<Rightarrow> string \<Rightarrow> string
     \<Rightarrow> response" where
  "runCGI srv sys conn selector fsPath scriptName pathInfo query search =
     (let c = buildCGI srv conn selector fsPath scriptName pathInfo query search in
      if \<not> stdoutPipeOK sys c then makeErrorResponse srv internalServerErrorError
      else if \<not> startOK sys c then makeErrorResponse srv internalServerErrorError
      else \<lparr>body = PipeReader c, rstatus = okStatus, cmd = Some c\<rparr>)"

definition getResponseFromPath ::
  "server \<Rightarrow> system \<Rightarrow> conn \<Rightarrow> string \<Rightarrow> string \<Rightarrow> string \<Rightarrow> string \<Rightarrow> string \<Rightarrow> string
     \<Rightarrow> response" where
  "getResponseFromPath srv sys conn selector fsPath scriptName pathInfo query search =
     (case openFile sys fsPath of
        OpenNotExist \<Rightarrow> makeErrorResponse srv fileNotFoundError
      | OpenFailed \<Rightarrow> makeErrorResponse srv forbiddenError
      | OpenOK \<Rightarrow>
          if hasSuffix fsPath cgiExt then
            runCGI srv sys conn selector fsPath scriptName pathInfo query search
          else if pathInfo \<noteq> [] then makeErrorResponse srv fileNotFoundError
          else \<lparr>body = FileReader fsPath, rstatus = okStatus, cmd = None\<rparr>)"

text \<open>\<^verbatim>\<open>getResponseForRequest\<close>; \<^const>\<open>None\<close> is a panic of \<open>splitPath\<close>.\<close>

definition getResponseForRequest ::
  "server \<Rightarrow> system \<Rightarrow> conn \<Rightarrow> string \<Rightarrow> string \<Rightarrow> string \<Rightarrow> string \<Rightarrow> response option" where
  "getResponseForRequest srv sys conn selector path query search =
     (case splitPath (stat sys) (excluded srv) (docRoot srv) path of
        None \<Rightarrow> None
      | Some (fsPath, scriptName, pathInfo, Some err) \<Rightarrow> Some (makeErrorResponse srv err)
      | Some (fsPath, scriptName, pathInfo, None) \<Rightarrow>
          Some (getResponseFromPath srv sys conn selector fsPath scriptName pathInfo query search))"

subsection \<open>The accept loop and the connection semaphore\<close>

text \<open>
  \<^verbatim>\<open>connChan\<close> is a channel of capacity \<^verbatim>\<open>maxConn\<close>; only the number of tokens it
  holds matters. The accept task is either at the send \<^verbatim>\<open>connChan <- struct{}{}\<close> or at
  \<^verbatim>\<open>listener.Accept()\<close>. Every handler started by \<^verbatim>\<open>go handleConn(conn)\<close> is
  running until it exits, and its exit runs the deferred receive \<^verbatim>\<open><-connChan\<close>;
  \<open>released\<close> counts the receives a handler has done, \<open>holders\<close> the running
  handlers and \<open>totalReleased\<close> all receives done so far. Channel operations are atomic:
  a send waits while the channel is full and a receive waits while it is empty, so each
  is a step enabled only in the other case. The steps of all tasks interleave freely.
\<close>

datatype acceptPC = AtSend | AtAccept

record handler =
  running :: bool
  released :: nat

record sched =
  chanLen :: nat
  pc :: acceptPC
  handlers :: "handler list"

definition initSched :: sched where
  "initSched = \<lparr>chanLen = 0, pc = AtSend, handlers = []\<rparr>"

inductive step :: "nat \<Rightarrow> sched \<Rightarrow> sched \<Rightarrow> bool" for maxConn :: nat where
  send: "pc s = AtSend \<Longrightarrow> chanLen s < maxConn \<Longrightarrow>
         step maxConn s (s\<lparr>chanLen := chanLen s + 1, pc := AtAccept\<rparr>)"
| acceptOK: "pc s = AtAccept \<Longrightarrow>
         step maxConn s
           (s\<lparr>pc := AtSend, handlers := handlers s @ [\<lparr>running = True, released = 0\<rparr>]\<rparr>)"
| acceptErr: "pc s = AtAccept \<Longrightarrow> step maxConn s (s\<lparr>pc := AtSend\<rparr>)"
| handlerExit: "i < length (handlers s) \<Longrightarrow> running (handlers s ! i) \<Longrightarrow> chanLen s > 0 \<Longrightarrow>
         step maxConn s
           (s\<lparr>chanLen := chanLen s - 1,
              handlers := (handlers s)[i := \<lparr>running = False,
                                            released = released (handlers s ! i) + 1\<rparr>]\<rparr>)"

inductive reachable :: "nat \<Rightarrow> sched \<Rightarrow> bool" for maxConn :: nat where
  init: "reachable maxConn initSched"
| after: "reachable maxConn s \<Longrightarrow> step maxConn s s' \<Longrightarrow> reachable maxConn s'"

definition holders :: "sched \<Rightarrow> nat" where
  "holders s = length (filter running (handlers s))"

definition totalReleased :: "sched \<Rightarrow> nat" where
  "totalReleased s = sum_list (map released (handlers s))"

subsection \<open>Segments of a path, as the specification speaks of them\<close>

text \<open>
  \<open>segments\<close> splits a string at every \<open>/\<close>; \<open>popsPast\<close> walks the segments
  as the specification describes (runs of \<open>/\<close> collapse, \<open>.\<close> is dropped,
  \<open>..\<close> pops) and tells whether some \<open>..\<close> meets an empty stack of the
  given depth.
\<close>

fun segments :: "string \<Rightarrow> string list" where
  "segments [] = [[]]"
| "segments (c # cs) =
     (if c = CHR ''/'' then [] # segments cs
      else (c # hd (segments cs)) # tl (segments cs))"

fun popsPast :: "string list \<Rightarrow> nat \<Rightarrow> bool" where
  "popsPast [] depth = False"
| "popsPast (c # cs) depth =
     (if c = ''..'' then (depth = 0 \<or> popsPast cs (depth - 1))
      else if c = ''.'' \<or> c = [] then popsPast cs depth
      else popsPast cs (depth + 1))"

text \<open>The invariant of SplitRequest as the specification words it.\<close>

definition splitInvariant :: "string \<times> string \<times> string \<times> string \<Rightarrow> bool" where
  "splitInvariant r =
     (case r of (selector, path, query, search) \<Rightarrow>
        if query = [] then selector = path else selector = path @ ''?'' @ query)"

text \<open>
  Five reads of a connection: four of 4095 bytes \<open>a\<close>, then 4095 bytes \<open>a\<close> and the
  line feed, so that the first line feed comes after 20475 bytes.
\<close>

definition lateLFReads :: "readResult list" where
  "lateLFReads =
     replicate 4 (ReadData (replicate 4095 CHR ''a''))
       @ [ReadData (replicate 4095 CHR ''a'' @ [CHR 0x0A])]"

text \<open>
  Three small file-system states. \<open>scriptFS\<close>: a document root \<open>r\<close> without index
  files, holding the script \<open>a.cgi\<close>. \<open>indexFS\<close>: a document root \<open>r\<close> holding both
  \<open>index.cgi\<close> and \<open>index.map\<close>. \<open>textFS\<close>: a document root \<open>r\<close> holding
  \<open>a.txt\<close> only. A path through a regular file cannot be examined (\<^verbatim>\<open>ENOTDIR\<close>).
\<close>

definition scriptFS :: fileSystem where
  "scriptFS p =
     (if p = ''r'' \<or> p = ''r/'' then StatInfo (ModeDir OR 493)
      else if p = ''r/a.cgi'' then StatInfo 493
      else if p = ''r/a.cgi/x'' then StatFailed
      else StatNotExist)"

definition indexFS :: fileSystem where
  "indexFS p =
     (if p = ''r'' \<or> p = ''r/'' then StatInfo (ModeDir OR 493)
      else if p = ''r/index.cgi'' then StatInfo 493
      else if p = ''r/index.map'' then StatInfo 420
      else StatNotExist)"

definition textFS :: fileSystem where
  "textFS p =
     (if p = ''r'' \<or> p = ''r/'' then StatInfo (ModeDir OR 493)
      else if p = ''r/a.txt'' then StatInfo 420
      else StatNotExist)"

text \<open>The claims about the resolver's result, as they are worded.\<close>

definition pathInfoExclusive :: "resolved \<Rightarrow> bool" where
  "pathInfoExclusive r =
     (case r of (fsPath, scriptName, pathInfo, err) \<Rightarrow>
        err = None \<and> pathInfo \<noteq> [] \<longrightarrow>
          hasSuffix fsPath ''.cgi'' \<or> hasSuffix fsPath ''/index.cgi'')"

definition failsWithForbidden :: "resolved option \<Rightarrow> bool" where
  "failsWithForbidden r =
     (case r of
        Some (fsPath, scriptName, pathInfo, Some err) \<Rightarrow> status err = forbiddenStatus
      | _ \<Rightarrow> False)"

text \<open>
  \<open>cgiIndexFS\<close>: a document root \<open>r\<close> whose only file is \<open>index.cgi\<close>; \<open>plainSystem\<close>
  is a system over a file-system state where every open and every spawn succeeds, and
  \<open>plainServer\<close> a server with the default configuration and document root \<open>r\<close>.
\<close>

definition cgiIndexFS :: fileSystem where
  "cgiIndexFS p =
     (if p = ''r'' \<or> p = ''r/'' then StatInfo (ModeDir OR 493)
      else if p = ''r/index.cgi'' then StatInfo 493
      else StatNotExist)"

definition plainSystem :: "fileSystem \<Rightarrow> system" where
  "plainSystem fs =
     \<lparr>stat = fs, openFile = (\<lambda>p. OpenOK), stdoutPipeOK = (\<lambda>c. True), startOK = (\<lambda>c. True)\<rparr>"

definition plainServer :: server where
  "plainServer =
     \<lparr>config = defaultConfig(''serverport'' \<mapsto> IntValue 70), docRoot = ''r'', excluded = {},
      uptime = 0, requestCount = 0, bytesTransferred = 0\<rparr>"



text \<open>
  \<open>testsFS\<close> is the tree that \<^verbatim>\<open>TestSplitPath\<close> expects under \<^verbatim>\<open>tests\<close>:
  \<^verbatim>\<open>index.map\<close>, \<^verbatim>\<open>text.txt\<close>, \<^verbatim>\<open>foo/text.txt\<close>, \<^verbatim>\<open>foo/bar/cgi.cgi\<close> and
  \<^verbatim>\<open>foo/bar/index.cgi\<close>.
\<close>

definition testsFS :: fileSystem where
  "testsFS p =
     (if p \<in> {''tests'', ''tests/'', ''tests/foo'', ''tests/foo/'', ''tests/foo/bar'',
               ''tests/foo/bar/''}
      then StatInfo (ModeDir OR 493)
      else if p \<in> {''tests/index.map'', ''tests/text.txt'', ''tests/foo/text.txt''}
      then StatInfo 420
      else if p \<in> {''tests/foo/bar/cgi.cgi'', ''tests/foo/bar/index.cgi''} then StatInfo 493
      else if p \<in> {''tests/foo/text.txt/'', ''tests/foo/text.txt/bar'',
                    ''tests/foo/bar/cgi.cgi/path/info'', ''tests/foo/bar/cgi.cgi/bar''}
      then StatFailed
      else StatNotExist)"

subsection \<open>Invariants used in the proofs\<close>

text \<open>
  A component that \<open>normalizePath\<close> keeps; a candidate of the walk that is either the
  initial one or names a regular file, with the initial error or none; and the
  invariant of the accept loop: every running handler, and the accept task while it
  waits in \<^verbatim>\<open>Accept\<close>, is accounted for by a token in the channel.
\<close>

definition goodComponent :: "string \<Rightarrow> bool" where
  "goodComponent c \<longleftrightarrow> CHR ''/'' \<notin> set c \<and> c \<noteq> ''.'' \<and> c \<noteq> ''..''"

definition candOK :: "fileSystem \<Rightarrow> string set \<Rightarrow> candidate \<Rightarrow> candidate \<Rightarrow> bool" where
  "candOK fs ex cand0 cand \<longleftrightarrow>
     (case cand of (fsPath, split, err) \<Rightarrow>
        cand = cand0 \<or>
        (fst (getStats fs ex fsPath) \<and> (err = snd (snd cand0) \<or> err = None)))"

definition schedInv :: "nat \<Rightarrow> sched \<Rightarrow> bool" where
  "schedInv maxConn s \<longleftrightarrow>
     holders s + (if pc s = AtAccept then 1 else 0) \<le> chanLen s \<and> chanLen s \<le> maxConn \<and>
     list_all (\<lambda>h. released h = (if running h then 0 else 1)) (handlers s)"

subsection \<open>Facts about the library helpers\<close>

lemma cut_join:
  "cut s sep = (before, after, found) \<Longrightarrow>
     (found \<longrightarrow> s = before @ [sep] @ after \<and> sep \<notin> set before) \<and>
     (\<not> found \<longrightarrow> s = before \<and> after = [] \<and> sep \<notin> set s)"
  by (induction s arbitrary: before after found) (auto split: if_splits prod.splits)

lemma cut_notin: "sep \<notin> set s \<Longrightarrow> cut s sep = (s, [], False)"
  by (induction s) auto

lemma cut_at: "sep \<notin> set before \<Longrightarrow> cut (before @ sep # after) sep = (before, after, True)"
  by (induction before) auto

lemma indexByte_notin: "c \<notin> set s \<Longrightarrow> indexByte s c = -1"
  by (induction s) auto

subsection \<open>Facts about the resolver\<close>

lemma probeIndex_indexPaths:
  "probeIndex fs ex cur n indexPaths cand =
     (if canServeFile fs ex (cur @ ''/index.map'') then (cur @ ''/index.map'', n, None)
      else if canServeFile fs ex (cur @ indexCgiPath) then (cur @ indexCgiPath, n, None)
      else cand)"
  by (auto simp: indexPaths_def canServeFile_def split: prod.splits)

lemma probeIndex_cases:
  "probeIndex fs ex cur n indexPaths cand = cand \<or>
   (\<exists>idx \<in> set indexPaths. canServeFile fs ex (cur @ idx) \<and>
      probeIndex fs ex cur n indexPaths cand = (cur @ idx, n, None))"
  unfolding probeIndex_indexPaths by (auto simp: indexPaths_def)

lemma canServeFile_isFile: "canServeFile fs ex p \<Longrightarrow> fst (getStats fs ex p)"
  by (auto simp: canServeFile_def split: prod.splits)

lemma candOK_refl: "candOK fs ex cand0 cand0"
  by (simp add: candOK_def split: prod.splits)

lemma splitLoop_candOK:
  "n \<le> length path \<Longrightarrow> candOK fs ex cand0 cand \<Longrightarrow>
   \<exists>r. splitLoop fs ex path n cand = Some r \<and> candOK fs ex cand0 r"
proof (induction fs ex path n cand rule: splitLoop.induct)
  case (1 fs ex path n cand)
  obtain isFile isDir isCGI pathErr
    where gs: "getStats fs ex (take n path) = (isFile, isDir, isCGI, pathErr)"
    by (cases "getStats fs ex (take n path)") auto
  obtain fsPath split err where cand: "cand = (fsPath, split, err)" by (cases cand) auto
  define cand' where "cand' = probeIndex fs ex (take n path) n indexPaths cand"
  define n' where "n' = nextSlash path (n + 1)"
  have ok': "candOK fs ex cand0 cand'"
    using probeIndex_cases [of fs ex "take n path" n cand] "1.prems"(2)
    by (auto simp: cand'_def candOK_def dest: canServeFile_isFile)
  show ?case
  proof (cases isFile)
    case True
    then have "splitLoop fs ex path n cand = Some (take n path, n, err)"
      using "1.prems"(1) gs cand by (subst splitLoop.simps) simp
    moreover have "candOK fs ex cand0 (take n path, n, err)"
      using "1.prems"(2) gs True cand by (auto simp: candOK_def)
    ultimately show ?thesis by simp
  next
    case notFile: False
    show ?thesis
    proof (cases "pathErr \<noteq> None \<or> \<not> isDir")
      case True
      then have "splitLoop fs ex path n cand = Some cand"
        using "1.prems"(1) gs notFile by (subst splitLoop.simps) auto
      then show ?thesis using "1.prems"(2) by simp
    next
      case dir: False
      show ?thesis
      proof (cases "n = length path \<or> (n' = length path \<and> path ! (n' - 1) = CHR ''/'')")
        case True
        then have "splitLoop fs ex path n cand = Some cand'"
          using "1.prems"(1) gs notFile dir
          by (subst splitLoop.simps) (auto simp: cand'_def n'_def Let_def)
        then show ?thesis using ok' by simp
      next
        case False
        then have unf: "splitLoop fs ex path n cand = splitLoop fs ex path n' cand'"
          using "1.prems"(1) gs notFile dir
          by (subst splitLoop.simps) (auto simp: cand'_def n'_def Let_def)
        have le: "n' \<le> length path"
          unfolding n'_def using False "1.prems"(1) by (intro nextSlash_le) simp
        have "\<exists>r. splitLoop fs ex path n' cand' = Some r \<and> candOK fs ex cand0 r"
          using dir notFile False "1.prems"(1)
          by (intro "1.IH" [OF _ refl gs [symmetric] refl refl _ _ cand'_def _ n'_def _ le ok'])
             auto
        then show ?thesis using unf by simp
      qed
    qed
  qed
qed

lemma nextSlash_end: "nextSlash path (length path) = length path"
  by (subst nextSlash.simps) simp

lemma splitLoop_at_end:
  "getStats fs ex path = (False, True, c, None) \<Longrightarrow>
   splitLoop fs ex path (length path) cand
     = Some (probeIndex fs ex path (length path) indexPaths cand)"
  by (subst splitLoop.simps) (simp add: Let_def)

lemma splitLoop_before_slash:
  "getStats fs ex root = (False, True, c, None) \<Longrightarrow>
   splitLoop fs ex (root @ ''/'') (length root) cand
     = Some (probeIndex fs ex root (length root) indexPaths cand)"
  using nextSlash_end [of "root @ ''/''"]
  by (subst splitLoop.simps) (simp add: Let_def nth_append)

lemma getStats_dir_same:
  "getStats fs ex p = (False, True, c, e) \<Longrightarrow> fs q = fs p \<Longrightarrow> getStats fs ex q = (False, True, c, e)"
  by (auto simp: getStats_def Let_def split: statResult.splits if_splits)

lemma probeIndex_split:
  "probeIndex fs ex cur n indexPaths (f, n, e) = (f', s', e') \<Longrightarrow> s' = n"
  by (auto simp: probeIndex_indexPaths split: if_splits)

lemma resolve_root:
  assumes "getStats fs ex root = (False, True, c, None)" "cgiExt \<notin> ex"
    and "probeIndex fs ex root (length root) indexPaths ([], length root, Some fileNotFoundError)
           = (fsPath, split, err)"
  shows "splitScriptPathAndPathInfo fs ex root (length root) = Some (fsPath, [], [], err)"
  using assms probeIndex_split [OF assms(3)]
  by (simp add: splitScriptPathAndPathInfo_def splitLoop_at_end)

lemma resolve_root_slash:
  assumes "getStats fs ex root = (False, True, c, None)" "cgiExt \<notin> ex"
    and "fs (root @ ''/'') = fs root"
    and "probeIndex fs ex root (length root) indexPaths ([], length root, Some fileNotFoundError)
           = (fsPath, split, err)"
  shows "splitScriptPathAndPathInfo fs ex (root @ ''/'') (length root) = Some (fsPath, [], ''/'', err)"
  using assms probeIndex_split [OF assms(4)] getStats_dir_same [OF assms(1) assms(3)]
  by (simp add: splitScriptPathAndPathInfo_def splitLoop_before_slash)

lemma normalizePath_empty: "normalizePath [] = Some []"
  by (simp add: normalizePath_def normalizeLoop.simps)

lemma normalizePath_slash: "normalizePath ''/'' = Some ''/''"
  by code_simp

lemma splitPath_empty:
  "splitPath fs ex root [] = splitScriptPathAndPathInfo fs ex root (length root)"
  by (simp add: splitPath_def normalizePath_empty)

lemma splitPath_slash:
  "splitPath fs ex root ''/'' = splitScriptPathAndPathInfo fs ex (root @ ''/'') (length root)"
  by (simp add: splitPath_def normalizePath_slash)

subsection \<open>The repository's tests, run on the model\<close>

text \<open>
  The cases of \<^verbatim>\<open>TestSplitRequest\<close> and \<^verbatim>\<open>TestSplitPath\<close> of \<^verbatim>\<open>main_test.go\<close>,
  the latter in the tree \<open>testsFS\<close>.
\<close>

lemma TestSplitRequest:
  "splitRequest [] = ([], [], [], [])"
  "splitRequest ''/'' = (''/'', ''/'', [], [])"
  "splitRequest ''/script?query'' = (''/script?query'', ''/script'', ''query'', [])"
  "splitRequest (''/script?query'' @ [CHR 0x09] @ ''search'')
     = (''/script?query'', ''/script'', ''query'', ''search'')"
  by (simp_all add: splitRequest_def)

lemma TestSplitPath_plain:
  "splitPath testsFS {} ''tests'' [] = Some (''tests/index.map'', [], [], None)"
  "splitPath testsFS {} ''tests'' ''/'' = Some (''tests/index.map'', [], ''/'', None)"
  "splitPath testsFS {} ''tests'' ''/text.txt'' = Some (''tests/text.txt'', ''/text.txt'', [], None)"
  "splitPath testsFS {} ''tests'' ''%2Ftext.txt''
     = Some (''tests/text.txt'', ''/text.txt'', [], None)"
  "splitPath testsFS {} ''tests'' ''%2.text.txt'' = Some ([], [], [], Some badRequestError)"
  "splitPath testsFS {} ''tests'' ''///foo//text.txt''
     = Some (''tests/foo/text.txt'', ''/foo/text.txt'', [], None)"
  "splitPath testsFS {} ''tests'' ''/foo/text.txt/''
     = Some (''tests/foo/text.txt'', ''/foo/text.txt'', ''/'', None)"
  "splitPath testsFS {} ''tests'' ''///foo//text.txt/''
     = Some (''tests/foo/text.txt'', ''/foo/text.txt'', ''/'', None)"
  by code_simp+

lemma TestSplitPath_cgi:
  "splitPath testsFS {} ''tests'' ''/foo/bar/cgi.cgi''
     = Some (''tests/foo/bar/cgi.cgi'', ''/foo/bar/cgi.cgi'', [], None)"
  "splitPath testsFS {} ''tests'' ''/foo/bar/cgi.cgi/path/info''
     = Some (''tests/foo/bar/cgi.cgi'', ''/foo/bar/cgi.cgi'', ''/path/info'', None)"
  "splitPath testsFS {} ''tests'' ''/foo/bar/path/info''
     = Some (''tests/foo/bar/index.cgi'', ''/foo/bar'', ''/path/info'', None)"
  by code_simp+

lemma TestSplitPath_dots:
  "splitPath testsFS {} ''tests'' ''/foo/./bar''
     = Some (''tests/foo/bar/index.cgi'', ''/foo/bar'', [], None)"
  "splitPath testsFS {} ''tests'' ''/foo/text.txt/bar/.''
     = Some (''tests/foo/text.txt'', ''/foo/text.txt'', ''/bar'', None)"
  "splitPath testsFS {} ''tests'' ''/foo/bar/cgi.cgi/./bar''
     = Some (''tests/foo/bar/cgi.cgi'', ''/foo/bar/cgi.cgi'', ''/bar'', None)"
  "splitPath testsFS {} ''tests'' ''/foo/bar/cgi.cgi/bar/.''
     = Some (''tests/foo/bar/cgi.cgi'', ''/foo/bar/cgi.cgi'', ''/bar'', None)"
  "splitPath testsFS {} ''tests'' ''/foo/../bar'' = Some (''tests/index.map'', [], ''/bar'', None)"
  "splitPath testsFS {} ''tests'' ''/foo/bar/..'' = Some (''tests/index.map'', [], ''/foo'', None)"
  "splitPath testsFS {} ''tests'' ''/foo/bar/cgi.cgi/../bar''
     = Some (''tests/foo/bar/index.cgi'', ''/foo/bar'', ''/bar'', None)"
  "splitPath testsFS {} ''tests'' ''/foo/bar/cgi.cgi/bar/..''
     = Some (''tests/foo/bar/cgi.cgi'', ''/foo/bar/cgi.cgi'', [], None)"
  "splitPath testsFS {} ''tests'' ''foo'' = Some (''tests/index.map'', [], ''/foo'', None)"
  by code_simp+

subsection \<open>Properties of normalizePath\<close>

lemma findEnd_noslash: "s \<le> i \<Longrightarrow> i < findEnd path s \<Longrightarrow> path ! i \<noteq> CHR ''/''"
proof (induction path s rule: findEnd.induct)
  case (1 path e)
  show ?case
  proof (cases "e < length path \<and> path ! e \<noteq> CHR ''/''")
    case True
    then have fe: "findEnd path e = findEnd path (e + 1)"
      by (subst findEnd.simps) simp
    show ?thesis
    proof (cases "i = e")
      case True
      with \<open>e < length path \<and> path ! e \<noteq> CHR ''/''\<close> show ?thesis by simp
    next
      case False
      with 1 True fe show ?thesis by simp
    qed
  next
    case False
    then have "findEnd path e = e"
      by (subst findEnd.simps) auto
    with 1 show ?thesis by simp
  qed
qed

lemma component_noslash:
  "CHR ''/'' \<notin> set (take (findEnd path s - s) (drop s path))"
proof
  assume "CHR ''/'' \<in> set (take (findEnd path s - s) (drop s path))"
  then obtain j where j: "j < length (take (findEnd path s - s) (drop s path))"
    and eq: "take (findEnd path s - s) (drop s path) ! j = CHR ''/''"
    by (auto simp: in_set_conv_nth)
  from j have j1: "j < findEnd path s - s" and j2: "s + j < length path" by auto
  from eq j1 j2 have "path ! (s + j) = CHR ''/''" by simp
  moreover have "path ! (s + j) \<noteq> CHR ''/''"
    using findEnd_noslash [of s "s + j" path] j1 by simp
  ultimately show False by simp
qed

lemma normalizeLoop_good:
  "normalizeLoop path start e newPath = Some out \<Longrightarrow> list_all goodComponent newPath
     \<Longrightarrow> list_all goodComponent out"
proof (induction path start e newPath rule: normalizeLoop.induct)
  case (1 path start e newPath)
  show ?case
  proof (cases "e < length path")
    case False
    with "1.prems" show ?thesis by (simp add: normalizeLoop.simps)
  next
    case True
    define start' where "start' = skipSlashes path start"
    define e' where "e' = findEnd path start'"
    define component where "component = take (e' - start') (drop start' path)"
    note defs = start'_def e'_def component_def
    have ns: "CHR ''/'' \<notin> set component"
      unfolding component_def e'_def by (rule component_noslash)
    consider (dd) "component = ''..''" | (d) "component = ''.''"
      | (other) "component \<noteq> ''..''" "component \<noteq> ''.''" by blast
    then show ?thesis
    proof cases
      case dd
      with "1.prems"(1) True have ne: "length newPath \<noteq> 0"
        and r: "normalizeLoop path (e' + 1) e' (take (length newPath - 1) newPath) = Some out"
        by (subst (asm) normalizeLoop.simps, simp add: defs [symmetric] Let_def split: if_splits)+
      have "list_all goodComponent (take (length newPath - 1) newPath)"
        using "1.prems"(2) by (auto simp: list_all_iff dest: in_set_takeD)
      with "1.IH"(1) [OF True defs dd ne r] show ?thesis .
    next
      case d
      with "1.prems"(1) True
      have r: "normalizeLoop path (e' + 1) e' newPath = Some out"
        by (subst (asm) normalizeLoop.simps, simp add: defs [symmetric] Let_def split: if_splits)
      have nd: "component \<noteq> ''..''" using d by simp
      have "\<not> component \<noteq> ''.''" using d by simp
      from "1.IH"(3) [OF True defs nd this r "1.prems"(2)] show ?thesis .
    next
      case other
      with "1.prems"(1) True
      have r: "normalizeLoop path (e' + 1) e' (newPath @ [component]) = Some out"
        by (subst (asm) normalizeLoop.simps, simp add: defs [symmetric] Let_def split: if_splits)
      have "list_all goodComponent (newPath @ [component])"
        using "1.prems"(2) ns other by (auto simp: list_all_iff goodComponent_def)
      with "1.IH"(2) [OF True defs other r] show ?thesis .
    qed
  qed
qed


lemma segments_nonempty: "segments s \<noteq> []"
  by (induction s) auto

lemma flatten_concat: "flatten cs out = out @ concat (map ((#) CHR ''/'') cs)"
  by (induction cs arbitrary: out) auto

lemma segments_noslash_append:
  "CHR ''/'' \<notin> set c \<Longrightarrow> segments (c @ s) = (c @ hd (segments s)) # tl (segments s)"
  using segments_nonempty [of s] by (induction c) auto

lemma segments_flat:
  "\<forall>c \<in> set cs. CHR ''/'' \<notin> set c \<Longrightarrow> segments (concat (map ((#) CHR ''/'') cs)) = [] # cs"
  by (induction cs) (auto simp: segments_noslash_append)

lemma popsPast_skip:
  "start \<le> length path \<Longrightarrow>
   popsPast (segments (drop (skipSlashes path start) path)) d
     = popsPast (segments (drop start path)) d"
proof (induction path start rule: skipSlashes.induct)
  case (1 path start)
  show ?case
  proof (cases "start < length path \<and> path ! start = CHR ''/''")
    case True
    then have sk: "skipSlashes path start = skipSlashes path (start + 1)"
      by (subst skipSlashes.simps) simp
    have dr: "drop start path = CHR ''/'' # drop (start + 1) path"
      using True by (simp add: Cons_nth_drop_Suc [symmetric])
    show ?thesis using "1.IH" [OF True] True sk dr by simp
  next
    case False
    then have "skipSlashes path start = start"
      by (subst skipSlashes.simps) auto
    then show ?thesis by simp
  qed
qed

lemma segments_findEnd:
  "s \<le> length path \<Longrightarrow>
   segments (drop s path) =
     (if findEnd path s = length path then [take (findEnd path s - s) (drop s path)]
      else take (findEnd path s - s) (drop s path) # segments (drop (findEnd path s + 1) path))"
proof (induction path s rule: findEnd.induct)
  case (1 path e)
  show ?case
  proof (cases "e < length path \<and> path ! e \<noteq> CHR ''/''")
    case True
    then have fe: "findEnd path e = findEnd path (e + 1)"
      by (subst findEnd.simps) simp
    have dr: "drop e path = path ! e # drop (e + 1) path"
      using True by (simp add: Cons_nth_drop_Suc [symmetric])
    have ge: "e + 1 \<le> findEnd path (e + 1)" by (rule findEnd_ge)
    then have tk: "take (findEnd path (e + 1) - e) (drop e path)
        = path ! e # take (findEnd path (e + 1) - (e + 1)) (drop (e + 1) path)"
      by (subst dr) (simp add: take_Cons')
    have ih: "segments (drop (e + 1) path) =
     (if findEnd path (e + 1) = length path then [take (findEnd path (e + 1) - (e + 1)) (drop (e + 1) path)]
      else take (findEnd path (e + 1) - (e + 1)) (drop (e + 1) path) # segments (drop (findEnd path (e + 1) + 1) path))"
      using "1.IH" [OF True] True by simp
    show ?thesis
      unfolding fe tk by (subst dr) (use True ih in simp)
  next
    case False
    then have fe: "findEnd path e = e"
      by (subst findEnd.simps) auto
    show ?thesis
    proof (cases "e = length path")
      case True
      then show ?thesis using fe by simp
    next
      case False
      with \<open>\<not> (e < length path \<and> path ! e \<noteq> CHR ''/'')\<close> "1.prems"
      have "e < length path" "path ! e = CHR ''/''" by auto
      then have "drop e path = CHR ''/'' # drop (e + 1) path"
        by (simp add: Cons_nth_drop_Suc [symmetric])
      then show ?thesis using fe False by simp
    qed
  qed
qed



lemma skipSlashes_stop:
  "\<not> (skipSlashes path s < length path \<and> path ! skipSlashes path s = CHR ''/'')"
proof (induction path s rule: skipSlashes.induct)
  case (1 path start)
  show ?case
  proof (cases "start < length path \<and> path ! start = CHR ''/''")
    case True
    then have "skipSlashes path start = skipSlashes path (start + 1)"
      by (subst skipSlashes.simps) simp
    with "1.IH" [OF True] show ?thesis by simp
  next
    case False
    then have "skipSlashes path start = start"
      by (subst skipSlashes.simps) auto
    with False show ?thesis by simp
  qed
qed

lemma findEnd_stop:
  "\<not> (findEnd path s < length path \<and> path ! findEnd path s \<noteq> CHR ''/'')"
proof (induction path s rule: findEnd.induct)
  case (1 path e)
  show ?case
  proof (cases "e < length path \<and> path ! e \<noteq> CHR ''/''")
    case True
    then have "findEnd path e = findEnd path (e + 1)"
      by (subst findEnd.simps) simp
    with "1.IH" [OF True] show ?thesis by simp
  next
    case False
    then have "findEnd path e = e"
      by (subst findEnd.simps) auto
    with False show ?thesis by simp
  qed
qed

lemma normalizeLoop_None_iff:
  "e < length path \<Longrightarrow> start \<le> length path \<Longrightarrow>
   normalizeLoop path start e newPath = None
     \<longleftrightarrow> popsPast (segments (drop start path)) (length newPath)"
proof (induction path start e newPath rule: normalizeLoop.induct)
  case (1 path start e newPath)
  define start' where "start' = skipSlashes path start"
  define e' where "e' = findEnd path start'"
  define component where "component = take (e' - start') (drop start' path)"
  note defs = start'_def e'_def component_def
  have s'le: "start' \<le> length path"
    unfolding start'_def using "1.prems"(2) by (rule skipSlashes_le)
  have e'le: "e' \<le> length path"
    unfolding e'_def using s'le by (rule findEnd_le)
  have sg: "segments (drop start' path) =
      (if e' = length path then [component] else component # segments (drop (e' + 1) path))"
    unfolding component_def e'_def using s'le by (rule segments_findEnd)
  have pp: "popsPast (segments (drop start path)) (length newPath)
      = popsPast (segments (drop start' path)) (length newPath)"
    unfolding start'_def using "1.prems"(2) by (rule popsPast_skip [symmetric])
  have stop: "e' = length path \<Longrightarrow> normalizeLoop path (e' + 1) e' np = Some np" for np
    by (subst normalizeLoop.simps) simp
  have cne: "e' \<noteq> length path \<Longrightarrow> component \<noteq> []"
  proof
    assume ne: "e' \<noteq> length path" and emp: "component = []"
    have "start' \<le> e'" unfolding e'_def by (rule findEnd_ge)
    with emp ne e'le have eq: "e' = start'" by (auto simp: component_def)
    with ne e'le have lt: "start' < length path" by simp
    have "path ! start' \<noteq> CHR ''/''"
      using skipSlashes_stop [of path start] lt by (simp add: start'_def)
    moreover have "path ! e' = CHR ''/''"
      using findEnd_stop [of path start'] lt eq by (simp add: e'_def)
    ultimately show False using eq by simp
  qed
  consider (dd) "component = ''..''" | (d) "component = ''.''"
    | (other) "component \<noteq> ''..''" "component \<noteq> ''.''" by blast
  then show ?case
  proof cases
    case dd
    have unf: "normalizeLoop path start e newPath =
        (if length newPath = 0 then None
         else normalizeLoop path (e' + 1) e' (take (length newPath - 1) newPath))"
      using "1.prems"(1) dd
      by (subst normalizeLoop.simps) (simp add: defs [symmetric] Let_def)
    show ?thesis
    proof (cases "length newPath = 0")
      case True
      then show ?thesis using unf pp sg dd by simp
    next
      case False
      show ?thesis
      proof (cases "e' = length path")
        case True
        then show ?thesis using unf pp sg dd False stop by simp
      next
        case ne: False
        then have "e' < length path" "e' + 1 \<le> length path" using e'le by auto
        from "1.IH"(1) [OF "1.prems"(1) defs dd False this]
        show ?thesis using unf pp sg dd False ne by simp
      qed
    qed
  next
    case d
    have unf: "normalizeLoop path start e newPath = normalizeLoop path (e' + 1) e' newPath"
      using "1.prems"(1) d
      by (subst normalizeLoop.simps) (simp add: defs [symmetric] Let_def)
    show ?thesis
    proof (cases "e' = length path")
      case True
      then show ?thesis using unf pp sg d stop by simp
    next
      case ne: False
      then have lt: "e' < length path" "e' + 1 \<le> length path" using e'le by auto
      have nd: "component \<noteq> ''..''" and nn: "\<not> component \<noteq> ''.''" using d by simp_all
      from "1.IH"(3) [OF "1.prems"(1) defs nd nn lt]
      show ?thesis using unf pp sg d ne by simp
    qed
  next
    case other
    have unf: "normalizeLoop path start e newPath
        = normalizeLoop path (e' + 1) e' (newPath @ [component])"
      using "1.prems"(1) other
      by (subst normalizeLoop.simps) (simp add: defs [symmetric] Let_def)
    show ?thesis
    proof (cases "e' = length path")
      case True
      then show ?thesis using unf pp sg other stop by simp
    next
      case ne: False
      then have lt: "e' < length path" "e' + 1 \<le> length path" using e'le by auto
      from "1.IH"(2) [OF "1.prems"(1) defs other lt]
      show ?thesis using unf pp sg other ne cne by simp
    qed
  qed
qed


lemma normalizePath_None_iff: "normalizePath p = None \<longleftrightarrow> popsPast (segments p) 0"
proof (cases "p = []")
  case True
  then show ?thesis by (simp add: normalizePath_def normalizeLoop.simps)
next
  case False
  then have "normalizeLoop p 0 0 [] = None
      \<longleftrightarrow> popsPast (segments (drop 0 p)) (length ([] :: string list))"
    by (intro normalizeLoop_None_iff) simp_all
  then show ?thesis by (auto simp: normalizePath_def split: option.splits)
qed

lemma normalizePath_Some:
  assumes "normalizePath p = Some out"
  shows "\<exists>cs. list_all goodComponent cs \<and> out = concat (map ((#) CHR ''/'') cs)
            \<and> segments out = [] # cs"
proof -
  from assms obtain cs where cs: "normalizeLoop p 0 0 [] = Some cs" and out: "out = flatten cs []"
    by (auto simp: normalizePath_def split: option.splits)
  have good: "list_all goodComponent cs"
    using normalizeLoop_good [OF cs] by simp
  then have ns: "\<forall>c \<in> set cs. CHR ''/'' \<notin> set c"
    by (simp add: list_all_iff goodComponent_def)
  have "segments out = [] # cs"
    unfolding out flatten_concat using segments_flat [OF ns] by simp
  with good out show ?thesis by (auto simp: flatten_concat)
qed

lemma normalizePath_begins_slash:
  "normalizePath p = Some out \<Longrightarrow> out \<noteq> [] \<Longrightarrow> hd out = CHR ''/''"
proof -
  assume "normalizePath p = Some out" and ne: "out \<noteq> []"
  then obtain cs where out: "out = concat (map ((#) CHR ''/'') cs)"
    using normalizePath_Some by blast
  with ne show ?thesis by (cases cs) auto
qed

text \<open>
  Claim C1. For every input \<open>p\<close>, \<open>normalizePath p\<close> either fails or returns a string
  none of whose \<open>/\<close>-separated segments is \<open>.\<close> or \<open>..\<close> and which, unless it
  is empty, begins with \<open>/\<close>. It fails exactly when, walking the segments of \<open>p\<close>,
  some \<open>..\<close> would pop past the root; in particular every such input fails.
\<close>

theorem normalizePath_confinement:
  "(normalizePath p = None \<longleftrightarrow> popsPast (segments p) 0) \<and>
   (\<forall>out. normalizePath p = Some out \<longrightarrow>
      ''.'' \<notin> set (segments out) \<and> ''..'' \<notin> set (segments out) \<and>
      (out \<noteq> [] \<longrightarrow> hd out = CHR ''/''))"
proof (intro conjI allI impI)
  show "normalizePath p = None \<longleftrightarrow> popsPast (segments p) 0"
    by (rule normalizePath_None_iff)
next
  fix out
  assume some: "normalizePath p = Some out"
  then obtain cs where good: "list_all goodComponent cs" and sg: "segments out = [] # cs"
    using normalizePath_Some by blast
  show "''.'' \<notin> set (segments out)" "''..'' \<notin> set (segments out)"
    using good by (auto simp: sg list_all_iff goodComponent_def)
  show "out \<noteq> [] \<Longrightarrow> hd out = CHR ''/''"
    using some by (rule normalizePath_begins_slash)
qed

theorem normalizePath_confinement_witness:
  "popsPast (segments ''/foo/../../bar'') 0 \<and> normalizePath ''/foo/../../bar'' = None \<and>
   normalizePath ''a/./b//../c/'' = Some ''/a/c/'' \<and>
   ''.'' \<notin> set (segments ''/a/c/'') \<and> ''..'' \<notin> set (segments ''/a/c/'') \<and> hd ''/a/c/'' = CHR ''/''"
proof -
  have a: "popsPast (segments ''/foo/../../bar'') 0" by code_simp
  have b: "normalizePath ''a/./b//../c/'' = Some ''/a/c/''" by code_simp
  from a b normalizePath_confinement [of "''/foo/../../bar''"]
    normalizePath_confinement [of "''a/./b//../c/''"]
  show ?thesis by simp
qed

subsection \<open>Properties of splitRequest\<close>

text \<open>
  Claim C8, amended. Whenever the selector contains a question mark, in particular
  whenever \<open>query\<close> is not empty, the selector is \<open>path\<close>, a question mark and
  \<open>query\<close>; when it contains none, the selector is \<open>path\<close> and \<open>query\<close> is empty.
  So with an empty \<open>query\<close> the selector is either \<open>path\<close> or \<open>path\<close> followed by a
  question mark.
\<close>

theorem splitRequest_selector:
  "splitRequest request = (selector, path, query, search) \<Longrightarrow>
     (CHR ''?'' \<in> set selector \<longrightarrow> selector = path @ ''?'' @ query) \<and>
     (CHR ''?'' \<notin> set selector \<longrightarrow> selector = path \<and> query = []) \<and>
     (query \<noteq> [] \<longrightarrow> selector = path @ ''?'' @ query) \<and>
     (query = [] \<longrightarrow> selector = path \<or> selector = path @ ''?'')"
proof -
  assume a: "splitRequest request = (selector, path, query, search)"
  then obtain found where c: "cut selector CHR ''?'' = (path, query, found)"
    by (auto simp: splitRequest_def split: prod.splits)
  from cut_join [OF c] show ?thesis by (cases found) auto
qed

theorem splitRequest_selector_witness:
  "splitRequest ''/script?query'' = (''/script?query'', ''/script'', ''query'', []) \<and>
   ''/script?query'' = ''/script'' @ ''?'' @ ''query''"
  using splitRequest_selector [of "''/script?query''" "''/script?query''" "''/script''" "''query''" "[]"]
  by (simp add: splitRequest_def)

text \<open>
  Claim C8, as stated, fails at the request \<open>/a?\<close>: the query is empty and the
  selector \<open>/a?\<close> is not the path \<open>/a\<close>.
\<close>

theorem splitRequest_invariant_counterexample:
  "splitRequest ''/a?'' = (''/a?'', ''/a'', [], []) \<and> \<not> splitInvariant (splitRequest ''/a?'')"
  by (simp add: splitInvariant_def splitRequest_def)

subsection \<open>Properties of readRequest\<close>

lemma readLoop_more:
  "length requestBuf < maxRequestSize \<Longrightarrow> CHR 0x00 \<notin> set chunk \<Longrightarrow> CHR 0x0A \<notin> set chunk \<Longrightarrow>
   readLoop (ReadData chunk # rest) requestBuf = readLoop rest (requestBuf @ chunk)"
  by (subst readLoop.simps) (simp add: cut_notin)

lemma readLoop_done:
  "length requestBuf < maxRequestSize \<Longrightarrow> CHR 0x00 \<notin> set (before @ CHR 0x0A # after) \<Longrightarrow>
   CHR 0x0A \<notin> set before \<Longrightarrow> CHR 0x0D \<notin> set (requestBuf @ before) \<Longrightarrow>
   readLoop (ReadData (before @ CHR 0x0A # after) # rest) requestBuf = Inr (requestBuf @ before)"
  by (subst readLoop.simps) (simp add: cut_at indexByte_notin del: set_append)

lemma readLoop_full:
  "maxRequestSize \<le> length requestBuf \<Longrightarrow> readLoop reads requestBuf = Inl RequestTooBig"
  by (subst readLoop.simps) simp

text \<open>
  Claim C4, at the reads \<open>lateLFReads\<close>: every read is within the chunk size, the first
  line feed comes after 20475 bytes, and \<open>readRequest\<close> returns all 20475 of them,
  more than \<open>maxRequestSize\<close>.
\<close>

theorem readRequest_exceeds_maxRequestSize:
  "wellFormedReads lateLFReads \<and>
   readRequest lateLFReads = Inr (replicate 20475 CHR ''a'') \<and>
   maxRequestSize < length (replicate 20475 CHR ''a'')"
proof (intro conjI)
  show "wellFormedReads lateLFReads"
    by (simp add: wellFormedReads_def lateLFReads_def readChunkSize_def list_all_iff)
  show "maxRequestSize < length (replicate 20475 CHR ''a'')"
    by (simp add: maxRequestSize_def)
  have four: "replicate 4 x = [x, x, x, x]" for x :: readResult
    by (simp add: numeral_eq_Suc)
  have "readRequest lateLFReads
      = readLoop [ReadData (replicate 4095 CHR ''a'' @ [CHR 0x0A])] (replicate 16380 CHR ''a'')"
    unfolding readRequest_def lateLFReads_def four
    by (simp add: readLoop_more maxRequestSize_def replicate_add [symmetric]
             del: replicate_add)
  also have "\<dots> = Inr (replicate 16380 CHR ''a'' @ replicate 4095 CHR ''a'')"
    by (rule readLoop_done [where after = "[]", simplified]) (simp_all add: maxRequestSize_def)
  finally show "readRequest lateLFReads = Inr (replicate 20475 CHR ''a'')"
    by (simp add: replicate_add [symmetric] del: replicate_add)
qed

lemma readLoop_length:
  "wellFormedReads reads \<Longrightarrow> readLoop reads requestBuf = Inr request \<Longrightarrow>
   length request < maxRequestSize + readChunkSize - 1"
proof (induction reads arbitrary: requestBuf)
  case Nil
  then show ?case by (subst (asm) readLoop.simps) (simp split: if_splits)
next
  case (Cons r reads)
  show ?case
  proof (cases r)
    case ReadErr
    with Cons.prems(2) show ?thesis by (subst (asm) readLoop.simps) (simp split: if_splits)
  next
    case (ReadData chunk)
    from Cons.prems(1) ReadData have wf: "wellFormedReads reads" and len: "length chunk \<le> readChunkSize"
      by (simp_all add: wellFormedReads_def)
    obtain before after found where c: "cut chunk (CHR 0x0A) = (before, after, found)"
      by (cases "cut chunk (CHR 0x0A)") auto
    from cut_join [OF c] have bl: "found \<Longrightarrow> length before < length chunk"
      by auto
    from Cons.prems(2) ReadData c have lt: "length requestBuf < maxRequestSize"
      by (subst (asm) readLoop.simps) (simp split: if_splits)
    show ?thesis
    proof (cases found)
      case True
      with Cons.prems(2) ReadData c lt
      have "request = requestBuf @ before \<or> request = take (nat (int (length (requestBuf @ before)) - 1)) (requestBuf @ before)"
        by (subst (asm) readLoop.simps) (auto simp: Let_def split: if_splits)
      then have "length request \<le> length requestBuf + length before" by auto
      with bl [OF True] len lt show ?thesis by simp
    next
      case False
      with Cons.prems(2) ReadData c lt
      have "readLoop reads (requestBuf @ before) = Inr request"
        by (subst (asm) readLoop.simps) (auto simp: Let_def split: if_splits)
      from Cons.IH [OF wf this] show ?thesis .
    qed
  qed
qed

subsection \<open>Claims about path resolution\<close>

text \<open>
  Claim C2, as stated, fails: in the tree of the repository's tests the selector path
  \<open>/foo/../bar\<close> resolves without error to \<open>tests/index.map\<close> with path-info
  \<open>/bar\<close> (the case \<^verbatim>\<open>Dot dot\<close> of \<^verbatim>\<open>TestSplitPath\<close>), and \<open>tests/index.map\<close>
  ends neither in \<open>.cgi\<close> nor in \<open>/index.cgi\<close>.
\<close>

theorem pathInfo_exclusive_counterexample:
  "splitPath testsFS {} ''tests'' ''/foo/../bar'' = Some (''tests/index.map'', [], ''/bar'', None) \<and>
   \<not> pathInfoExclusive (''tests/index.map'', [], ''/bar'', None)"
  by code_simp

text \<open>
  Claim C2, amended. If path resolution succeeds with non-empty path-info and the request
  is answered with status 200, then \<open>fsPath\<close> ends in \<open>.cgi\<close> (as \<open>/index.cgi\<close>
  does); a resolution with non-empty path-info whose \<open>fsPath\<close> does not end in
  \<open>.cgi\<close> is answered \<open>File not found\<close> (or \<open>Forbidden\<close> when the file cannot be
  opened).
\<close>

theorem pathInfo_served_only_for_cgi:
  assumes "splitPath (stat sys) (excluded srv) (docRoot srv) path
             = Some (fsPath, scriptName, pathInfo, None)"
    and "pathInfo \<noteq> []"
    and "getResponseForRequest srv sys conn selector path query search = Some resp"
  shows "(rstatus resp = okStatus \<longrightarrow> hasSuffix fsPath cgiExt) \<and>
         (\<not> hasSuffix fsPath cgiExt \<longrightarrow>
            rstatus resp = fileNotFoundStatus \<or> rstatus resp = forbiddenStatus)"
proof -
  from assms(1,3)
  have resp: "resp = getResponseFromPath srv sys conn selector fsPath scriptName pathInfo query search"
    by (simp add: getResponseForRequest_def)
  show ?thesis
    unfolding resp using assms(2)
    by (cases "openFile sys fsPath")
       (simp_all add: getResponseFromPath_def makeErrorResponse_def fileNotFoundError_def
          forbiddenError_def okStatus_def fileNotFoundStatus_def forbiddenStatus_def)
qed

theorem pathInfo_served_only_for_cgi_witness:
  "splitPath cgiIndexFS {} ''r'' ''/x'' = Some (''r/index.cgi'', [], ''/x'', None) \<and>
   (\<exists>resp. getResponseForRequest plainServer (plainSystem cgiIndexFS) None ''/x'' ''/x'' [] []
             = Some resp \<and> rstatus resp = okStatus) \<and>
   hasSuffix ''r/index.cgi'' cgiExt"
proof -
  have sp: "splitPath (stat (plainSystem cgiIndexFS)) (excluded plainServer) (docRoot plainServer) ''/x''
      = Some (''r/index.cgi'', [], ''/x'', None)"
    by code_simp
  have ne: "''/x'' \<noteq> []" by simp
  define resp where "resp = getResponseFromPath plainServer (plainSystem cgiIndexFS) None ''/x''
      ''r/index.cgi'' [] ''/x'' [] []"
  have gr: "getResponseForRequest plainServer (plainSystem cgiIndexFS) None ''/x'' ''/x'' [] []
      = Some resp"
    using sp by (simp add: getResponseForRequest_def resp_def)
  have ok: "rstatus resp = okStatus"
    unfolding resp_def
    by (simp add: getResponseFromPath_def plainSystem_def hasSuffix_def cgiExt_def runCGI_def Let_def)
  have sp': "splitPath cgiIndexFS {} ''r'' ''/x'' = Some (''r/index.cgi'', [], ''/x'', None)"
    using sp by (simp add: plainSystem_def plainServer_def)
  from pathInfo_served_only_for_cgi [OF sp ne gr] ok gr sp' show ?thesis by blast
qed

text \<open>
  Claim C3, at the failing input. In \<open>scriptFS\<close> the walk over \<open>r/a.cgi/x\<close> reaches the
  proper prefix \<open>r/a.cgi\<close>, a regular file passing the permission rule, and no index
  file was found before; \<open>splitPath\<close> returns that prefix and the remaining suffix
  together with the error \<open>File not found\<close>.
\<close>

theorem prefix_file_without_index_is_error:
  "canServeFile scriptFS {} ''r/a.cgi'' \<and>
   splitPath scriptFS {} ''r'' ''/a.cgi/x''
     = Some (''r/a.cgi'', ''/a.cgi'', ''/x'', Some fileNotFoundError)"
  by code_simp

text \<open>
  Claim C5, as stated, fails: in \<open>textFS\<close> with \<open>.txt\<close> excluded, the path
  \<open>r/a.txt\<close> is a regular file with an excluded extension, and resolution fails
  with \<open>File not found\<close>.
\<close>

theorem excluded_forbidden_counterexample:
  "textFS (''r'' @ ''/a.txt'') = StatInfo 420 \<and> IsRegular 420 \<and>
   filepath_Ext (''r'' @ ''/a.txt'') \<in> {''.txt''} \<and>
   splitScriptPathAndPathInfo textFS {''.txt''} (''r'' @ ''/a.txt'') (length ''r'')
     = Some ([], [], ''/a.txt'', Some fileNotFoundError) \<and>
   \<not> failsWithForbidden
       (splitScriptPathAndPathInfo textFS {''.txt''} (''r'' @ ''/a.txt'') (length ''r''))"
  by code_simp

text \<open>
  Claim C5, amended. When \<open>rootDir @ normalizedPath\<close> stats as a regular file whose
  extension is excluded, \<open>getStats\<close> reports \<open>Forbidden\<close> for it, but path resolution
  does not pass that on: it returns without panic, and either fails with
  \<open>File not found\<close> or succeeds with another file (one found earlier in the walk),
  never the excluded one.
\<close>

theorem excluded_file_not_found:
  assumes "fs (rootDir @ p) = StatInfo mode" and "IsRegular mode"
    and "filepath_Ext (rootDir @ p) \<in> ex"
  shows "getStats fs ex (rootDir @ p) = (False, False, False, Some forbiddenError) \<and>
         (\<exists>fsPath scriptName pathInfo err.
            splitScriptPathAndPathInfo fs ex (rootDir @ p) (length rootDir)
              = Some (fsPath, scriptName, pathInfo, err) \<and>
            (err = Some fileNotFoundError \<or> (err = None \<and> fsPath \<noteq> rootDir @ p)))"
proof
  show gs: "getStats fs ex (rootDir @ p) = (False, False, False, Some forbiddenError)"
    using assms by (simp add: getStats_def)
  define cand0 :: candidate where "cand0 = ([], length rootDir, Some fileNotFoundError)"
  show "\<exists>fsPath scriptName pathInfo err.
            splitScriptPathAndPathInfo fs ex (rootDir @ p) (length rootDir)
              = Some (fsPath, scriptName, pathInfo, err) \<and>
            (err = Some fileNotFoundError \<or> (err = None \<and> fsPath \<noteq> rootDir @ p))"
  proof (cases "cgiExt \<in> ex")
    case True
    then show ?thesis using gs by (simp add: splitScriptPathAndPathInfo_def)
  next
    case False
    obtain r where r: "splitLoop fs ex (rootDir @ p) (length rootDir) cand0 = Some r"
      and ok: "candOK fs ex cand0 r"
      using splitLoop_candOK [of "length rootDir" "rootDir @ p" fs ex cand0 cand0]
      by (auto simp: candOK_refl)
    obtain fsPath split err where rr: "r = (fsPath, split, err)" by (cases r) auto
    have "err = Some fileNotFoundError \<or> (err = None \<and> fsPath \<noteq> rootDir @ p)"
      using ok gs unfolding rr candOK_def cand0_def by auto
    then show ?thesis
      using gs False r unfolding rr cand0_def by (simp add: splitScriptPathAndPathInfo_def)
  qed
qed

theorem excluded_file_not_found_witness:
  "textFS (''r'' @ ''/a.txt'') = StatInfo 420 \<and> IsRegular 420 \<and>
   filepath_Ext (''r'' @ ''/a.txt'') \<in> {''.txt''} \<and>
   getStats textFS {''.txt''} (''r'' @ ''/a.txt'') = (False, False, False, Some forbiddenError)"
proof -
  have a: "textFS (''r'' @ ''/a.txt'') = StatInfo 420" by code_simp
  have b: "IsRegular 420" by code_simp
  have c: "filepath_Ext (''r'' @ ''/a.txt'') \<in> {''.txt''}" by code_simp
  from excluded_file_not_found [of textFS "''r''" "''/a.txt''" 420 "{''.txt''}", OF a b c] a b c
  show ?thesis by blast
qed

text \<open>
  Claim C6, as stated, fails: in \<open>indexFS\<close> both \<open>r/index.cgi\<close> and \<open>r/index.map\<close>
  are regular files passing the permission rule, and the probe at the directory \<open>r\<close>
  records \<open>r/index.map\<close>; resolution there does not end in \<open>/index.cgi\<close>.
\<close>

theorem index_cgi_first_counterexample:
  "canServeFile indexFS {} (''r'' @ ''/index.cgi'') \<and>
   canServeFile indexFS {} (''r'' @ ''/index.map'') \<and>
   probeIndex indexFS {} ''r'' 1 indexPaths ([], 1, Some fileNotFoundError)
     = (''r/index.map'', 1, None) \<and>
   splitPath indexFS {} ''r'' [] = Some (''r/index.map'', [], [], None) \<and>
   \<not> hasSuffix ''r/index.map'' ''/index.cgi''"
  by code_simp

text \<open>
  Claim C6, amended. At a directory cursor position where both \<open>index.cgi\<close> and
  \<open>index.map\<close> are regular files passing the permission rule, the resolver records
  \<open>index.map\<close>, the last in the fixed probe order, as the best candidate for that
  position; so resolution of the empty path in such a document root yields the
  \<open>fsPath\<close> ending in \<open>/index.map\<close>. (In general the last index file in probe order
  that qualifies is recorded: \<open>index.cgi\<close> only when \<open>index.map\<close> does not qualify.)
\<close>

theorem index_map_recorded_last:
  assumes "canServeFile fs ex (curPath @ ''/index.cgi'')"
    and "canServeFile fs ex (curPath @ ''/index.map'')"
  shows "probeIndex fs ex curPath n indexPaths cand = (curPath @ ''/index.map'', n, None) \<and>
         (getStats fs ex curPath = (False, True, False, None) \<and> cgiExt \<notin> ex \<longrightarrow>
            splitPath fs ex curPath [] = Some (curPath @ ''/index.map'', [], [], None))"
proof -
  have pr: "probeIndex fs ex curPath m indexPaths c = (curPath @ ''/index.map'', m, None)" for m c
    using assms(2) by (simp add: probeIndex_indexPaths)
  show ?thesis
    using pr resolve_root [of fs ex curPath False, OF _ _ pr] by (simp add: splitPath_empty)
qed

theorem index_map_recorded_last_witness:
  "canServeFile indexFS {} (''r'' @ ''/index.cgi'') \<and>
   canServeFile indexFS {} (''r'' @ ''/index.map'') \<and>
   getStats indexFS {} ''r'' = (False, True, False, None) \<and> cgiExt \<notin> {} \<and>
   probeIndex indexFS {} ''r'' 0 indexPaths ([], 0, None) = (''r'' @ ''/index.map'', 0, None) \<and>
   splitPath indexFS {} ''r'' [] = Some (''r'' @ ''/index.map'', [], [], None)"
proof -
  have a: "canServeFile indexFS {} (''r'' @ ''/index.cgi'')" by code_simp
  have b: "canServeFile indexFS {} (''r'' @ ''/index.map'')" by code_simp
  have c: "getStats indexFS {} ''r'' = (False, True, False, None)" by code_simp
  have d: "cgiExt \<notin> {}" by simp
  from index_map_recorded_last [OF a b, of 0 "([], 0, None)"] a b c d show ?thesis by blast
qed

text \<open>
  Claim C10, as stated, fails when \<open>.cgi\<close> is excluded: in the tree of the
  repository's tests the document root is a directory passing the permission rule and
  holds the index file \<open>index.map\<close>, which can be served, yet with \<open>.cgi\<close> excluded
  the resolver returns before it looks for an index file, and both the empty path and
  the path \<open>/\<close> fail with \<open>File not found\<close>.
\<close>

theorem empty_path_cgi_excluded_counterexample:
  "getStats testsFS {''.cgi''} ''tests'' = (False, True, False, None) \<and>
   testsFS (''tests'' @ ''/'') = testsFS ''tests'' \<and>
   canServeFile testsFS {''.cgi''} (''tests'' @ ''/index.map'') \<and>
   normalizePath [] = Some [] \<and>
   splitPath testsFS {''.cgi''} ''tests'' [] = Some ([], [], [], Some fileNotFoundError) \<and>
   splitPath testsFS {''.cgi''} ''tests'' ''/'' = Some ([], [], [], Some fileNotFoundError)"
  by code_simp

text \<open>
  Claim C10, amended. The empty selector path is accepted: \<open>normalizePath\<close> of the empty
  string succeeds with the empty string, and every other successful output begins with
  \<open>/\<close>. Provided \<open>.cgi\<close> is not excluded, when the document root is a directory
  passing the permission rule (which the root followed by a slash names as well) and
  holds an index file that can be served, the empty path resolves to that index file
  with empty \<open>scriptName\<close> and empty \<open>pathInfo\<close>, and the path \<open>/\<close> resolves to the
  same index file with empty \<open>scriptName\<close> and \<open>pathInfo = /\<close>.
\<close>

theorem empty_path_resolution:
  assumes "getStats fs ex root = (False, True, False, None)"
    and "fs (root @ ''/'') = fs root"
    and "cgiExt \<notin> ex"
    and "canServeFile fs ex (root @ ''/index.cgi'') \<or> canServeFile fs ex (root @ ''/index.map'')"
  shows "normalizePath [] = Some [] \<and>
         (\<forall>p out. normalizePath p = Some out \<and> out \<noteq> [] \<longrightarrow> hd out = CHR ''/'') \<and>
         (\<exists>idx \<in> set indexPaths. canServeFile fs ex (root @ idx) \<and>
            splitPath fs ex root [] = Some (root @ idx, [], [], None) \<and>
            splitPath fs ex root ''/'' = Some (root @ idx, [], ''/'', None))"
proof (intro conjI allI impI)
  show "normalizePath [] = Some []" by (rule normalizePath_empty)
next
  fix p out
  assume "normalizePath p = Some out \<and> out \<noteq> []"
  then show "hd out = CHR ''/''" using normalizePath_begins_slash by blast
next
  define cand0 :: candidate where "cand0 = ([], length root, Some fileNotFoundError)"
  have "\<exists>idx. idx \<in> set indexPaths \<and> canServeFile fs ex (root @ idx) \<and>
      probeIndex fs ex root (length root) indexPaths cand0 = (root @ idx, length root, None)"
  proof (cases "canServeFile fs ex (root @ ''/index.map'')")
    case True
    then have "probeIndex fs ex root (length root) indexPaths cand0
        = (root @ ''/index.map'', length root, None)"
      by (simp add: probeIndex_indexPaths)
    moreover have "''/index.map'' \<in> set indexPaths" by (simp add: indexPaths_def)
    ultimately show ?thesis using True by blast
  next
    case False
    with assms(4) have cgi: "canServeFile fs ex (root @ indexCgiPath)"
      by (simp add: indexCgiPath_def)
    with False have "probeIndex fs ex root (length root) indexPaths cand0
        = (root @ indexCgiPath, length root, None)"
      by (simp add: probeIndex_indexPaths)
    moreover have "indexCgiPath \<in> set indexPaths" by (simp add: indexPaths_def)
    ultimately show ?thesis using cgi by blast
  qed
  then obtain idx where idx: "idx \<in> set indexPaths" "canServeFile fs ex (root @ idx)"
    and pr: "probeIndex fs ex root (length root) indexPaths cand0 = (root @ idx, length root, None)"
    by blast
  have "splitPath fs ex root [] = Some (root @ idx, [], [], None)"
    using resolve_root [OF assms(1,3) pr [unfolded cand0_def]] by (simp add: splitPath_empty)
  moreover have "splitPath fs ex root ''/'' = Some (root @ idx, [], ''/'', None)"
    using resolve_root_slash [OF assms(1,3,2) pr [unfolded cand0_def]] by (simp add: splitPath_slash)
  ultimately show "\<exists>idx \<in> set indexPaths. canServeFile fs ex (root @ idx) \<and>
            splitPath fs ex root [] = Some (root @ idx, [], [], None) \<and>
            splitPath fs ex root ''/'' = Some (root @ idx, [], ''/'', None)"
    using idx by blast
qed

theorem empty_path_resolution_witness:
  "getStats cgiIndexFS {} ''r'' = (False, True, False, None) \<and>
   cgiIndexFS (''r'' @ ''/'') = cgiIndexFS ''r'' \<and> cgiExt \<notin> {} \<and>
   canServeFile cgiIndexFS {} (''r'' @ ''/index.cgi'') \<and>
   splitPath cgiIndexFS {} ''r'' [] = Some (''r/index.cgi'', [], [], None) \<and>
   splitPath cgiIndexFS {} ''r'' ''/'' = Some (''r/index.cgi'', [], ''/'', None)"
proof -
  have a: "getStats cgiIndexFS {} ''r'' = (False, True, False, None)" by code_simp
  have b: "cgiIndexFS (''r'' @ ''/'') = cgiIndexFS ''r''" by code_simp
  have c: "cgiExt \<notin> {}" by simp
  have d: "canServeFile cgiIndexFS {} (''r'' @ ''/index.cgi'')" by code_simp
  have e: "\<not> canServeFile cgiIndexFS {} (''r'' @ ''/index.map'')" by code_simp
  from empty_path_resolution [OF a b c disjI1 [OF d]]
  obtain idx where "idx \<in> set indexPaths" "canServeFile cgiIndexFS {} (''r'' @ idx)"
    and r: "splitPath cgiIndexFS {} ''r'' [] = Some (''r'' @ idx, [], [], None)"
       "splitPath cgiIndexFS {} ''r'' ''/'' = Some (''r'' @ idx, [], ''/'', None)"
    by blast
  with e have "idx = ''/index.cgi''" by (auto simp: indexPaths_def indexCgiPath_def)
  with r a b c d show ?thesis by simp
qed

subsection \<open>Properties of the CGI runner\<close>







subsection \<open>Properties of the accept loop\<close>

lemma filter_running_update:
  "i < length hs \<Longrightarrow> running (hs ! i) \<Longrightarrow> \<not> running h \<Longrightarrow>
   Suc (length (filter running (hs[i := h]))) = length (filter running hs)"
proof (induction hs arbitrary: i)
  case Nil
  then show ?case by simp
next
  case (Cons a hs)
  then show ?case by (cases i) auto
qed

lemma step_schedInv: "step maxConn s s' \<Longrightarrow> schedInv maxConn s \<Longrightarrow> schedInv maxConn s'"
proof (induction rule: step.induct)
  case (send s)
  then show ?case by (auto simp: schedInv_def holders_def)
next
  case (acceptOK s)
  then show ?case by (auto simp: schedInv_def holders_def)
next
  case (acceptErr s)
  then show ?case by (auto simp: schedInv_def holders_def)
next
  case (handlerExit i s)
  let ?h = "\<lparr>running = False, released = released (handlers s ! i) + 1\<rparr>"
  have f: "Suc (length (filter running ((handlers s)[i := ?h]))) = length (filter running (handlers s))"
    using handlerExit(1,2) by (intro filter_running_update) simp_all
  have "released (handlers s ! i) = 0"
    using handlerExit(1,2,4) by (auto simp: schedInv_def list_all_length)
  then have "list_all (\<lambda>h. released h = (if running h then 0 else 1)) ((handlers s)[i := ?h])"
    using handlerExit(4) by (auto simp: schedInv_def list_all_iff dest!: set_update_subset_insert [THEN subsetD])
  with f handlerExit(4) show ?case
    by (auto simp: schedInv_def holders_def)
qed

lemma reachable_schedInv: "reachable maxConn s \<Longrightarrow> schedInv maxConn s"
proof (induction rule: reachable.induct)
  case init
  show ?case by (simp add: schedInv_def initSched_def holders_def)
next
  case (after s s')
  then show ?case using step_schedInv by blast
qed

lemma sum_list_released_update:
  "i < length hs \<Longrightarrow>
   sum_list (map released (hs[i := h])) + released (hs ! i) = sum_list (map released hs) + released h"
proof (induction hs arbitrary: i)
  case Nil
  then show ?case by simp
next
  case (Cons a hs)
  then show ?case by (cases i) auto
qed

lemma step_tokens:
  assumes "step maxConn s s'"
  shows "chanLen s' + totalReleased s'
           = chanLen s + totalReleased s + (if pc s = AtSend \<and> pc s' = AtAccept then 1 else 0)"
    and "\<forall>i < length (handlers s). running (handlers s ! i) \<and> \<not> running (handlers s' ! i) \<longrightarrow>
           chanLen s' + 1 = chanLen s \<and> released (handlers s' ! i) = released (handlers s ! i) + 1"
    and "\<forall>i < length (handlers s). \<not> running (handlers s ! i) \<longrightarrow>
           handlers s' ! i = handlers s ! i"
  using assms
proof (induction rule: step.induct)
  case (send s)
  { case 1 show ?case using send by (simp add: totalReleased_def) }
  { case 2 show ?case by simp }
  { case 3 show ?case by simp }
next
  case (acceptOK s)
  { case 1 show ?case using acceptOK by (simp add: totalReleased_def) }
  { case 2 show ?case by (simp add: nth_append) }
  { case 3 show ?case by (simp add: nth_append) }
next
  case (acceptErr s)
  { case 1 show ?case using acceptErr by (simp add: totalReleased_def) }
  { case 2 show ?case by simp }
  { case 3 show ?case by simp }
next
  case (handlerExit i s)
  { case 1
    show ?case
      using handlerExit sum_list_released_update [of i "handlers s"
          "\<lparr>running = False, released = released (handlers s ! i) + 1\<rparr>"]
      by (simp add: totalReleased_def) }
  { case 2 show ?case using handlerExit by (auto simp: nth_list_update) }
  { case 3 show ?case using handlerExit by (auto simp: nth_list_update) }
qed

text \<open>
  Claim C9. In every reachable state of the accept loop and its handlers, at most
  \<open>maxConn\<close> handlers are running, each of them accounted for by a token in the
  channel, so that a handler's exit never waits; every handler has received from the
  channel exactly once if it has exited and not at all while it runs. Every step
  conserves the tokens: the tokens in the channel and the receives done so far grow
  together by one token exactly at a send of the accept task, so each receive takes
  one token out of the channel; the step in which a handler exits leaves the channel
  one token shorter and is that handler's one receive; and a handler that has exited
  takes no further step.
\<close>

theorem concurrency_cap:
  "reachable maxConn s \<Longrightarrow>
     holders s \<le> maxConn \<and> holders s \<le> chanLen s \<and> chanLen s \<le> maxConn \<and>
     list_all (\<lambda>h. released h = (if running h then 0 else 1)) (handlers s) \<and>
     (\<forall>s'. step maxConn s s' \<longrightarrow>
        chanLen s' + totalReleased s'
          = chanLen s + totalReleased s + (if pc s = AtSend \<and> pc s' = AtAccept then 1 else 0) \<and>
        (\<forall>i < length (handlers s). running (handlers s ! i) \<and> \<not> running (handlers s' ! i) \<longrightarrow>
           chanLen s' + 1 = chanLen s \<and> released (handlers s' ! i) = released (handlers s ! i) + 1) \<and>
        (\<forall>i < length (handlers s). \<not> running (handlers s ! i) \<longrightarrow>
           handlers s' ! i = handlers s ! i))"
proof -
  assume r: "reachable maxConn s"
  from reachable_schedInv [OF r]
  have inv: "holders s \<le> maxConn \<and> holders s \<le> chanLen s \<and> chanLen s \<le> maxConn \<and>
     list_all (\<lambda>h. released h = (if running h then 0 else 1)) (handlers s)"
    by (auto simp: schedInv_def)
  have "\<forall>s'. step maxConn s s' \<longrightarrow>
        chanLen s' + totalReleased s'
          = chanLen s + totalReleased s + (if pc s = AtSend \<and> pc s' = AtAccept then 1 else 0) \<and>
        (\<forall>i < length (handlers s). running (handlers s ! i) \<and> \<not> running (handlers s' ! i) \<longrightarrow>
           chanLen s' + 1 = chanLen s \<and> released (handlers s' ! i) = released (handlers s ! i) + 1) \<and>
        (\<forall>i < length (handlers s). \<not> running (handlers s ! i) \<longrightarrow>
           handlers s' ! i = handlers s ! i)"
    using step_tokens [of maxConn s] by blast
  with inv show ?thesis by blast
qed

theorem concurrency_cap_witness:
  "reachable 1 \<lparr>chanLen = 1, pc = AtSend, handlers = [\<lparr>running = True, released = 0\<rparr>]\<rparr> \<and>
   holders \<lparr>chanLen = 1, pc = AtSend, handlers = [\<lparr>running = True, released = 0\<rparr>]\<rparr> = 1 \<and>
   step 1 \<lparr>chanLen = 1, pc = AtSend, handlers = [\<lparr>running = True, released = 0\<rparr>]\<rparr>
          \<lparr>chanLen = 0, pc = AtSend, handlers = [\<lparr>running = False, released = 1\<rparr>]\<rparr> \<and>
   chanLen \<lparr>chanLen = 0, pc = AtSend, handlers = [\<lparr>running = False, released = 1\<rparr>]\<rparr> + 1
     = chanLen \<lparr>chanLen = 1, pc = AtSend, handlers = [\<lparr>running = True, released = 0\<rparr>]\<rparr> \<and>
   reachable 1 \<lparr>chanLen = 0, pc = AtSend, handlers = [\<lparr>running = False, released = 1\<rparr>]\<rparr> \<and>
   holders \<lparr>chanLen = 0, pc = AtSend, handlers = [\<lparr>running = False, released = 1\<rparr>]\<rparr> = 0"
proof -
  let ?s1 = "\<lparr>chanLen = 1, pc = AtAccept, handlers = []\<rparr>"
  let ?s2 = "\<lparr>chanLen = 1, pc = AtSend, handlers = [\<lparr>running = True, released = 0\<rparr>]\<rparr>"
  let ?s3 = "\<lparr>chanLen = 0, pc = AtSend, handlers = [\<lparr>running = False, released = 1\<rparr>]\<rparr>"
  have "step 1 initSched ?s1"
    using step.send [of initSched 1] by (simp add: initSched_def)
  then have r1: "reachable 1 ?s1" using reachable.init reachable.after by blast
  have "step 1 ?s1 ?s2"
    using step.acceptOK [of ?s1 1] by simp
  with r1 have r2: "reachable 1 ?s2" using reachable.after by blast
  have st: "step 1 ?s2 ?s3"
    using step.handlerExit [of 0 ?s2 1] by simp
  with r2 have r3: "reachable 1 ?s3" using reachable.after by blast
  from concurrency_cap [OF r2] st
  have "\<forall>i < length (handlers ?s2). running (handlers ?s2 ! i) \<and> \<not> running (handlers ?s3 ! i) \<longrightarrow>
           chanLen ?s3 + 1 = chanLen ?s2 \<and> released (handlers ?s3 ! i) = released (handlers ?s2 ! i) + 1"
    by blast
  then have "chanLen ?s3 + 1 = chanLen ?s2" by simp
  with r2 r3 st show ?thesis by (simp add: holders_def)
qed

end
